theory Spec2Isabelle
  imports Complex_Main "HOL-Library.FSet"
begin

section \<open>JavaScript strings\<close>

text \<open>
  A JavaScript string is a sequence of UTF-16 code units; \<open>length\<close>, \<open>slice\<close>,
  \<open>lastIndexOf\<close> and \<open>trim\<close> all count code units. A code unit is modelled by its
  number. \<open>js\<close> turns an ASCII literal into such a string.
\<close>

type_synonym jsstring = "nat list"

definition js :: "string \<Rightarrow> jsstring" where
  "js s = map of_char s"

text \<open>
  The characters removed by \<open>String.prototype.trim\<close>, \<open>trimStart\<close> and \<open>trimEnd\<close>:
  the ECMAScript WhiteSpace and LineTerminator code points.
\<close>

definition is_ws :: "nat \<Rightarrow> bool" where
  "is_ws c \<longleftrightarrow> c \<in> set [0x09, 0x0A, 0x0B, 0x0C, 0x0D, 0x20, 0xA0, 0x1680,
      0x2000, 0x2001, 0x2002, 0x2003, 0x2004, 0x2005, 0x2006, 0x2007, 0x2008, 0x2009, 0x200A,
      0x2028, 0x2029, 0x202F, 0x205F, 0x3000, 0xFEFF]"

definition trimStart :: "jsstring \<Rightarrow> jsstring" where
  "trimStart s = dropWhile is_ws s"

definition trimEnd :: "jsstring \<Rightarrow> jsstring" where
  "trimEnd s = rev (dropWhile is_ws (rev s))"

definition trim :: "jsstring \<Rightarrow> jsstring" where
  "trim s = trimEnd (trimStart s)"

text \<open>
  \<open>s.lastIndexOf(c, k)\<close> for a one-character search string \<open>c\<close>: the greatest index
  \<open>i \<le> k\<close> inside the string with \<open>s[i] = c\<close>, or \<open>-1\<close>. Positions past the end of the
  string are skipped, which is the clamping of the start position that JavaScript does.
\<close>

fun lastIndexOf :: "jsstring \<Rightarrow> nat \<Rightarrow> nat \<Rightarrow> int" where
  "lastIndexOf s c 0 = (if 0 < length s \<and> s ! 0 = c then 0 else - 1)"
| "lastIndexOf s c (Suc k) =
     (if Suc k < length s \<and> s ! Suc k = c then int (Suc k) else lastIndexOf s c k)"

text \<open>
  \<open>s.slice(b, e)\<close> and \<open>s.slice(b)\<close>: a negative index counts from the end, and both
  indices are clamped to the string.
\<close>

definition slice :: "jsstring \<Rightarrow> int \<Rightarrow> int \<Rightarrow> jsstring" where
  "slice s b e =
     (let n = int (length s);
          from = (if b < 0 then max (n + b) 0 else min b n);
          to = (if e < 0 then max (n + e) 0 else min e n)
      in take (nat (to - from)) (drop (nat from) s))"

definition slice_from :: "jsstring \<Rightarrow> int \<Rightarrow> jsstring" where
  "slice_from s b = slice s b (int (length s))"

section \<open>Configuration and authorization (telegram-relay.ts, config.ts)\<close>

text \<open>
  The two fields of \<open>relayConfig\<close> that the functions below read. \<open>parseMaxReplyChars\<close>
  yields an integer between 200 and 4096, so \<open>maxReplyChars\<close> is a natural number; chat
  identifiers are the integers Telegram assigns.
\<close>

record RelayConfig =
  allowedChatIds :: "int fset"
  maxReplyChars :: nat

record Chat =
  chat_id :: int

text \<open>Of the grammY context only \<open>ctx.chat\<close> is read; it may be undefined.\<close>

record Context =
  chat :: "Chat option"

definition isAuthorized :: "RelayConfig \<Rightarrow> Context \<Rightarrow> bool" where
  "isAuthorized cfg ctx =
     (if fcard (allowedChatIds cfg) = 0 then True
      else (case map_option chat_id (chat ctx) of
              None \<Rightarrow> False
            | Some chatId \<Rightarrow> chatId |\<in>| allowedChatIds cfg))"

section \<open>The reply chunker (telegram-relay.ts, splitForTelegram)\<close>

text \<open>
  The \<open>while\<close> loop of \<open>splitForTelegram\<close>, returning \<open>chunks\<close> and \<open>remaining\<close> at its
  exit. For \<open>max = 0\<close> the loop need not end, so it is a partial function: \<open>None\<close> is a
  run that never leaves the loop.

  The test \<open>cut < max * 0.6\<close> compares an integer with a double. For integers \<open>cut\<close> and
  \<open>max\<close> in the range of the configuration it holds exactly when \<open>5 * cut < 3 * max\<close>.
  When \<open>3 * max / 5\<close> is not an integer, the nearest integer is at least \<open>1 / 5\<close> away,
  far more than the rounding error of the product. When it is an integer, the double
  nearest to 0.6 lies below 0.6, so the rounded product is at most that integer and
  above the integer before it.
\<close>

partial_function (option) splitLoop ::
  "nat \<Rightarrow> jsstring list \<Rightarrow> jsstring \<Rightarrow> (jsstring list \<times> jsstring) option" where
  "splitLoop mx chunks remaining =
     (if length remaining > mx then
        (let cut0 = lastIndexOf remaining 0x0A mx;
             cut = (if 5 * cut0 < 3 * int mx then int mx else cut0)
         in splitLoop mx (chunks @ [trim (slice remaining 0 cut)])
              (trimStart (slice_from remaining cut)))
      else Some (chunks, remaining))"

declare splitLoop.simps [code]

definition splitForTelegram :: "jsstring \<Rightarrow> nat \<Rightarrow> jsstring list option" where
  "splitForTelegram text mx =
     (if length text \<le> mx then Some [text]
      else case splitLoop mx [] text of
             None \<Rightarrow> None
           | Some (chunks, remaining) \<Rightarrow>
               Some (if length remaining > 0 then chunks @ [remaining] else chunks))"

text \<open>
  The same loop with a counter of its iterations added (the last argument); nothing else
  is changed. \<open>splitLoop_iters_spec\<close> below shows that it computes what \<open>splitLoop\<close>
  computes.
\<close>

partial_function (option) splitLoop_iters ::
  "nat \<Rightarrow> jsstring list \<Rightarrow> jsstring \<Rightarrow> nat \<Rightarrow>
     ((jsstring list \<times> jsstring) \<times> nat) option" where
  "splitLoop_iters mx chunks remaining n =
     (if length remaining > mx then
        (let cut0 = lastIndexOf remaining 0x0A mx;
             cut = (if 5 * cut0 < 3 * int mx then int mx else cut0)
         in splitLoop_iters mx (chunks @ [trim (slice remaining 0 cut)])
              (trimStart (slice_from remaining cut)) (Suc n))
      else Some ((chunks, remaining), n))"

declare splitLoop_iters.simps [code]

definition splitForTelegram_iters :: "jsstring \<Rightarrow> nat \<Rightarrow> (jsstring list \<times> nat) option" where
  "splitForTelegram_iters text mx =
     (if length text \<le> mx then Some ([text], 0)
      else case splitLoop_iters mx [] text 0 of
             None \<Rightarrow> None
           | Some ((chunks, remaining), n) \<Rightarrow>
               Some (if length remaining > 0 then chunks @ [remaining] else chunks, n))"

text \<open>The value of \<open>cut\<close> after the \<open>if\<close> in the loop body.\<close>

definition splitCut :: "nat \<Rightarrow> jsstring \<Rightarrow> int" where
  "splitCut mx remaining =
     (let cut0 = lastIndexOf remaining 0x0A mx
      in if 5 * cut0 < 3 * int mx then int mx else cut0)"

section \<open>Numbers as text\<close>

text \<open>
  \<open>String(n)\<close> and the template literal \<open>${n}\<close> for an integer \<open>n\<close> (below \<open>10^21\<close>
  in size, where JavaScript switches to exponent notation): the decimal digits, with a
  minus sign for a negative number.
\<close>

fun digits :: "nat \<Rightarrow> jsstring" where
  "digits n = (if n < 10 then [48 + n] else digits (n div 10) @ [48 + n mod 10])"

declare digits.simps [simp del]

definition String_number :: "int \<Rightarrow> jsstring" where
  "String_number i = (if i < 0 then 45 # digits (nat (- i)) else digits (nat i))"

section \<open>The turn executor (codex-runner.ts)\<close>

text \<open>
  What \<open>JSON.parse\<close> returns. The code reads only the properties \<open>type\<close>,
  \<open>thread_id\<close>, \<open>message\<close> and \<open>error.message\<close> and tests them for being strings, so the
  value of a number is left out. \<open>JSON.parse\<close> itself is a parameter of the model
  (\<open>JSON_parse\<close>): \<open>None\<close> is a SyntaxError.
\<close>

datatype json = JNull | JBool bool | JNum | JStr jsstring | JArr "json list"
  | JObj "(jsstring \<times> json) list"

text \<open>
  \<open>v.key\<close> for a value \<open>v\<close> that is not null and one of the four keys above: \<open>None\<close>
  is \<open>undefined\<close>. Only an object can have such a property (its keys are distinct);
  booleans, numbers, strings and arrays have none of the four.
\<close>

fun get_prop :: "json \<Rightarrow> jsstring \<Rightarrow> json option" where
  "get_prop (JObj kvs) key = map_of kvs key"
| "get_prop _ key = None"

text \<open>\<open>v?.key\<close>: \<open>undefined\<close> when \<open>v\<close> is \<open>undefined\<close> or null.\<close>

fun get_prop_opt :: "json option \<Rightarrow> jsstring \<Rightarrow> json option" where
  "get_prop_opt None key = None"
| "get_prop_opt (Some JNull) key = None"
| "get_prop_opt (Some v) key = get_prop v key"

text \<open>The string behind a value \<open>v\<close> with \<open>typeof v === "string"\<close>.\<close>

fun string_prop :: "json option \<Rightarrow> jsstring option" where
  "string_prop (Some (JStr s)) = Some s"
| "string_prop _ = None"

record CodexTurnInput =
  input_prompt :: jsstring
  input_sessionId :: "jsstring option"
  input_imagePaths :: "jsstring list option"

record CodexTurnResult =
  reply :: jsstring
  result_sessionId :: "jsstring option"

datatype stream = Stdout | Stderr

text \<open>
  The variables of \<open>runCodexTurn\<close> that \<open>consumeLine\<close> closes over and updates.
\<close>

record turn_state =
  sessionId :: "jsstring option"
  jsonErrors :: "jsstring list"
  stderrLines :: "jsstring list"
  stdoutLines :: "jsstring list"

text \<open>
  The three \<open>if\<close> statements of the \<open>try\<close> block in \<open>consumeLine\<close>, applied to the
  parsed event.
\<close>

definition apply_event :: "json \<Rightarrow> turn_state \<Rightarrow> turn_state" where
  "apply_event event st1 =
     (let st2 = (if get_prop event (js ''type'') = Some (JStr (js ''thread.started''))
                 then (case string_prop (get_prop event (js ''thread_id'')) of
                         Some thread_id \<Rightarrow> st1\<lparr>sessionId := Some thread_id\<rparr>
                       | None \<Rightarrow> st1)
                 else st1);
          st3 = (if get_prop event (js ''type'') = Some (JStr (js ''error''))
                 then (case string_prop (get_prop event (js ''message'')) of
                         Some message \<Rightarrow> st2\<lparr>jsonErrors := jsonErrors st2 @ [message]\<rparr>
                       | None \<Rightarrow> st2)
                 else st2)
      in if get_prop event (js ''type'') = Some (JStr (js ''turn.failed''))
         then (case string_prop (get_prop_opt (get_prop event (js ''error'')) (js ''message'')) of
                 Some message \<Rightarrow> st3\<lparr>jsonErrors := jsonErrors st3 @ [message]\<rparr>
               | None \<Rightarrow> st3)
         else st3)"

text \<open>The push of the trimmed line onto \<open>stderrLines\<close> or \<open>stdoutLines\<close>.\<close>

definition push_line :: "jsstring \<Rightarrow> stream \<Rightarrow> turn_state \<Rightarrow> turn_state" where
  "push_line trimmed source st =
     (case source of
        Stderr \<Rightarrow> st\<lparr>stderrLines := stderrLines st @ [trimmed]\<rparr>
      | Stdout \<Rightarrow> st\<lparr>stdoutLines := stdoutLines st @ [trimmed]\<rparr>)"

text \<open>
  \<open>consumeLine\<close>. The \<open>try\<close> block ends without effect when \<open>JSON.parse\<close> throws, and
  also when it returns null, where reading \<open>event.type\<close> throws a TypeError before
  anything is updated; no later statement of the block can throw.
\<close>

definition consumeLine ::
  "(jsstring \<Rightarrow> json option) \<Rightarrow> jsstring \<Rightarrow> stream \<Rightarrow> turn_state \<Rightarrow> turn_state" where
  "consumeLine JSON_parse line source st =
     (let trimmed = trim line in
      if trimmed = [] then st
      else
        let st1 = push_line trimmed source st
        in case JSON_parse trimmed of
             None \<Rightarrow> st1
           | Some JNull \<Rightarrow> st1
           | Some event \<Rightarrow> apply_event event st1)"

text \<open>All \<open>line\<close> events of the two readline interfaces, in the order they fire.\<close>

fun consumeLines ::
  "(jsstring \<Rightarrow> json option) \<Rightarrow> (jsstring \<times> stream) list \<Rightarrow> turn_state \<Rightarrow> turn_state" where
  "consumeLines JSON_parse [] st = st"
| "consumeLines JSON_parse ((line, source) # rest) st =
     consumeLines JSON_parse rest (consumeLine JSON_parse line source st)"

text \<open>\<open>xs.at(-1)\<close>: the last element, \<open>undefined\<close> for an empty array.\<close>

definition at_last :: "'a list \<Rightarrow> 'a option" where
  "at_last xs = (if xs = [] then None else Some (last xs))"

text \<open>
  What the child process does in one turn, as \<open>runCodexTurn\<close> sees it: either the
  \<open>error\<close> event (the process could not be started; the promise of the exit code is
  rejected with that error) or the \<open>close\<close> event with the exit code, which is null
  when a signal ended the process; the lines it wrote, all of which the readline
  interfaces have passed to \<open>consumeLine\<close> when \<open>close\<close> fires; and the contents of
  the final-message file, \<open>None\<close> when reading it fails.
\<close>

datatype child_event = ChildError jsstring | Close "int option"

record turn_env =
  child :: child_event
  lines :: "(jsstring \<times> stream) list"
  finalMessage :: "jsstring option"

text \<open>
  An exception leaving \<open>runCodexTurn\<close>: the rejection passed on from the child's
  \<open>error\<close> event, or the \<open>Error\<close> thrown by the decision at the end.
\<close>

datatype thrown = SpawnFailure jsstring | Error jsstring

text \<open>
  The result of a call and whether \<open>fs.rm(tempDir)\<close> has been reached when the call
  ends. \<open>fs.mkdtemp\<close> and \<open>fs.rm\<close> themselves are taken to succeed.
\<close>

record turn_run =
  outcome :: "thrown + CodexTurnResult"
  tempDirRemoved :: bool

text \<open>\<open>code ?? 1\<close>, the value of \<open>exitCode\<close>.\<close>

definition exit_status :: "int option \<Rightarrow> int" where
  "exit_status code = (case code of None \<Rightarrow> 1 | Some c \<Rightarrow> c)"

text \<open>The value of \<open>reply\<close> after the \<open>try\<close> around \<open>fs.readFile\<close>.\<close>

definition candidate_reply :: "turn_env \<Rightarrow> jsstring" where
  "candidate_reply env = (case finalMessage env of None \<Rightarrow> [] | Some contents \<Rightarrow> trim contents)"

text \<open>The value of \<open>details\<close>: a chain of \<open>??\<close>.\<close>

definition details :: "turn_state \<Rightarrow> int \<Rightarrow> jsstring" where
  "details st exitCode =
     (case at_last (jsonErrors st) of Some m \<Rightarrow> m | None \<Rightarrow>
      (case at_last (stderrLines st) of Some m \<Rightarrow> m | None \<Rightarrow>
       (case at_last (stdoutLines st) of Some m \<Rightarrow> m | None \<Rightarrow>
          js ''Codex process exited with code '' @ String_number exitCode)))"

text \<open>The state of the closure variables when the child has closed.\<close>

definition final_state ::
  "(jsstring \<Rightarrow> json option) \<Rightarrow> turn_env \<Rightarrow> CodexTurnInput \<Rightarrow> turn_state" where
  "final_state JSON_parse env input =
     consumeLines JSON_parse (lines env)
       \<lparr>sessionId = input_sessionId input, jsonErrors = [], stderrLines = [], stdoutLines = []\<rparr>"

definition runCodexTurn ::
  "(jsstring \<Rightarrow> json option) \<Rightarrow> turn_env \<Rightarrow> CodexTurnInput \<Rightarrow> turn_run" where
  "runCodexTurn JSON_parse env input =
     (case child env of
        ChildError e \<Rightarrow> \<lparr>outcome = Inl (SpawnFailure e), tempDirRemoved = False\<rparr>
      | Close code \<Rightarrow>
          (let st = final_state JSON_parse env input;
               exitCode = exit_status code;
               reply = candidate_reply env
           in if exitCode \<noteq> 0 \<and> length reply = 0 then
                \<lparr>outcome = Inl (Error (details st exitCode)), tempDirRemoved = True\<rparr>
              else
                \<lparr>outcome = Inr \<lparr>reply = (if reply = []
                                            then js ''Codex completed but returned an empty message.''
                                            else reply),
                                   result_sessionId = sessionId st\<rparr>,
                 tempDirRemoved = True\<rparr>))"

subsection \<open>What the output lines say, in the words of the specification\<close>

text \<open>
  The structured event a line carries, if it carries one: the line is not blank and
  parses to a value other than null.
\<close>

definition parsed_event :: "(jsstring \<Rightarrow> json option) \<Rightarrow> jsstring \<Rightarrow> json option" where
  "parsed_event JSON_parse line =
     (if trim line = [] then None
      else case JSON_parse (trim line) of Some JNull \<Rightarrow> None | r \<Rightarrow> r)"

text \<open>The session a line reports: a \<open>thread.started\<close> event with a string \<open>thread_id\<close>.\<close>

definition started_session :: "(jsstring \<Rightarrow> json option) \<Rightarrow> jsstring \<Rightarrow> jsstring option" where
  "started_session JSON_parse line =
     (case parsed_event JSON_parse line of
        None \<Rightarrow> None
      | Some event \<Rightarrow>
          if get_prop event (js ''type'') = Some (JStr (js ''thread.started''))
          then string_prop (get_prop event (js ''thread_id'')) else None)"

definition started_sessions ::
  "(jsstring \<Rightarrow> json option) \<Rightarrow> (jsstring \<times> stream) list \<Rightarrow> jsstring list" where
  "started_sessions JSON_parse ls = List.map_filter (\<lambda>(line, source). started_session JSON_parse line) ls"

text \<open>
  The structured error message a line carries: the \<open>message\<close> of an \<open>error\<close> event or
  the \<open>error.message\<close> of a \<open>turn.failed\<close> event, when it is a string.
\<close>

definition error_message :: "(jsstring \<Rightarrow> json option) \<Rightarrow> jsstring \<Rightarrow> jsstring option" where
  "error_message JSON_parse line =
     (case parsed_event JSON_parse line of
        None \<Rightarrow> None
      | Some event \<Rightarrow>
          if get_prop event (js ''type'') = Some (JStr (js ''error''))
          then string_prop (get_prop event (js ''message''))
          else if get_prop event (js ''type'') = Some (JStr (js ''turn.failed''))
          then string_prop (get_prop_opt (get_prop event (js ''error'')) (js ''message''))
          else None)"

definition structured_errors ::
  "(jsstring \<Rightarrow> json option) \<Rightarrow> (jsstring \<times> stream) list \<Rightarrow> jsstring list" where
  "structured_errors JSON_parse ls = List.map_filter (\<lambda>(line, source). error_message JSON_parse line) ls"

text \<open>The non-blank lines of one stream, trimmed.\<close>

definition nonempty_lines :: "stream \<Rightarrow> (jsstring \<times> stream) list \<Rightarrow> jsstring list" where
  "nonempty_lines src ls = [trim line. (line, source) \<leftarrow> ls, source = src, trim line \<noteq> []]"

text \<open>A malformed line: \<open>JSON.parse\<close> throws on it.\<close>

definition malformed :: "(jsstring \<Rightarrow> json option) \<Rightarrow> jsstring \<Rightarrow> bool" where
  "malformed JSON_parse line \<longleftrightarrow> JSON_parse (trim line) = None"

definition without_malformed ::
  "(jsstring \<Rightarrow> json option) \<Rightarrow> (jsstring \<times> stream) list \<Rightarrow> (jsstring \<times> stream) list" where
  "without_malformed JSON_parse ls = filter (\<lambda>(line, source). \<not> malformed JSON_parse line) ls"

subsection \<open>Example data\<close>

text \<open>
  Lines and a final message used in the examples below, with \<open>JSON.parse\<close> given on
  exactly these lines. \<open>quoted s\<close> is \<open>s\<close> between double quotes.
\<close>

definition quoted :: "string \<Rightarrow> jsstring" where
  "quoted s = 34 # js s @ [34]"

definition started_line :: "string \<Rightarrow> jsstring" where
  "started_line sid =
     js ''{'' @ quoted ''type'' @ js '':'' @ quoted ''thread.started'' @ js '','' @
     quoted ''thread_id'' @ js '':'' @ quoted sid @ js ''}''"

definition error_line :: "string \<Rightarrow> jsstring" where
  "error_line m =
     js ''{'' @ quoted ''type'' @ js '':'' @ quoted ''error'' @ js '','' @
     quoted ''message'' @ js '':'' @ quoted m @ js ''}''"

definition example_parse :: "jsstring \<Rightarrow> json option" where
  "example_parse s =
     (if s = started_line ''S1'' then
        Some (JObj [(js ''type'', JStr (js ''thread.started'')), (js ''thread_id'', JStr (js ''S1''))])
      else if s = started_line ''S2'' then
        Some (JObj [(js ''type'', JStr (js ''thread.started'')), (js ''thread_id'', JStr (js ''S2''))])
      else if s = error_line ''quota exceeded'' then
        Some (JObj [(js ''type'', JStr (js ''error'')), (js ''message'', JStr (js ''quota exceeded''))])
      else if s = js ''null'' then Some JNull
      else None)"

definition example_input :: CodexTurnInput where
  "example_input = \<lparr>input_prompt = js ''hi'', input_sessionId = Some (js ''S0''),
     input_imagePaths = None\<rparr>"

section \<open>The session registry (session-store.ts)\<close>

text \<open>
  How an awaited call ends: it returns a value or it throws.
\<close>

datatype 'a completion = Returned 'a | Threw

text \<open>
  The sessions file as \<open>loadOnce\<close> meets it: missing (\<open>ENOENT\<close>); unreadable in any
  other way (another read error, a payload that \<open>JSON.parse\<close> rejects, or the payload
  \<open>null\<close>, on which \<open>Object.entries\<close> throws); or a payload that parses to a value whose
  entries are given as a map from key to value. The keys of an object are distinct, so
  the order in which \<open>loadOnce\<close> visits the entries does not matter.
\<close>

datatype sessions_file = Missing | Unreadable | Document "jsstring \<rightharpoonup> json"

text \<open>
  Whether the chain of writes behind \<open>writeQueue\<close> has met a failed write: once a
  write has failed, \<open>writeQueue\<close> is a rejected promise and stays one, because \<open>then\<close>
  with only a fulfilment handler skips the handler.
\<close>

datatype settled = Fulfilled | Rejected

text \<open>The fields of a \<open>SessionStore\<close>; \<open>filePath\<close> is fixed.\<close>

record SessionStore =
  loaded :: bool
  sessions :: "jsstring \<rightharpoonup> jsstring"
  writeQueue :: settled

text \<open>The store that \<open>new SessionStore(filePath)\<close> builds, as after a restart.\<close>

definition new_SessionStore :: SessionStore where
  "new_SessionStore = \<lparr>loaded = False, sessions = Map.empty, writeQueue = Fulfilled\<rparr>"

text \<open>
  \<open>loadOnce\<close> up to its \<open>await fs.readFile\<close>: it returns at once when \<open>loaded\<close> is set,
  and otherwise sets \<open>loaded\<close> and goes on to read the file. The flag says whether it
  goes on to read. \<open>loaded\<close> is set before the file has been read: a call that comes
  while the file is being read finds \<open>loaded\<close> set and the sessions not yet there.
\<close>

definition loadOnce_start :: "SessionStore \<Rightarrow> bool \<times> SessionStore" where
  "loadOnce_start st = (if loaded st then (False, st) else (True, st\<lparr>loaded := True\<rparr>))"

text \<open>
  The \<open>for\<close> loop of \<open>loadOnce\<close>: every entry whose value is a non-empty string is
  set, the others are skipped.
\<close>

definition load_entries :: "(jsstring \<rightharpoonup> json) \<Rightarrow> (jsstring \<rightharpoonup> jsstring) \<Rightarrow> (jsstring \<rightharpoonup> jsstring)" where
  "load_entries parsed m =
     (\<lambda>chatId. case string_prop (parsed chatId) of
                  Some sid \<Rightarrow> if length sid > 0 then Some sid else m chatId
                | None \<Rightarrow> m chatId)"

text \<open>\<open>loadOnce\<close> from the point where \<open>fs.readFile\<close> has ended, with what it read.\<close>

definition loadOnce_finish :: "sessions_file \<Rightarrow> SessionStore \<Rightarrow> unit completion \<times> SessionStore" where
  "loadOnce_finish payload st =
     (case payload of
        Missing \<Rightarrow> (Returned (), st)
      | Unreadable \<Rightarrow> (Threw, st)
      | Document parsed \<Rightarrow> (Returned (), st\<lparr>sessions := load_entries parsed (sessions st)\<rparr>))"

text \<open>
  Whether \<open>fs.mkdir\<close> and \<open>fs.writeFile\<close> complete, and the file a failed write leaves
  behind.
\<close>

datatype write_outcome = WriteCompletes | WriteFails sessions_file

text \<open>
  A call of \<open>get\<close>, \<open>set\<close> or \<open>clear\<close> and where it stands. Each \<open>await\<close> of the
  source is a point where the call is suspended and other calls run:
  \<^item> \<open>AwaitRead\<close>: the call has set \<open>loaded\<close> and awaits \<open>fs.readFile\<close>;
  \<^item> \<open>GotFile payload\<close>: the file has been read, \<open>loadOnce\<close> has not gone on yet;
  \<^item> \<open>AwaitLoad\<close>: \<open>loadOnce\<close> has returned, the call awaits its promise;
  \<^item> \<open>AwaitWrite\<close>: \<open>set\<close> or \<open>clear\<close> has changed \<open>sessions\<close> and chained its write to
    \<open>writeQueue\<close>, which it awaits;
  \<^item> \<open>Finished r\<close>: the call has returned (\<open>set\<close> and \<open>clear\<close> return nothing, written
    \<open>None\<close>) or thrown.
\<close>

datatype request = GetCall int | SetCall int jsstring | ClearCall int

datatype pc = AwaitRead | GotFile sessions_file | AwaitLoad | AwaitWrite
  | Finished "jsstring option completion"

record store_call =
  call_request :: request
  call_pc :: pc

text \<open>
  The store, the file behind \<open>filePath\<close>, the calls made so far and the calls whose
  writes are chained to \<open>writeQueue\<close>, in the order of the chain.
\<close>

record registry =
  reg_store :: SessionStore
  reg_disk :: sessions_file
  reg_calls :: "store_call list"
  reg_writers :: "nat list"

definition set_pc :: "nat \<Rightarrow> pc \<Rightarrow> registry \<Rightarrow> registry" where
  "set_pc c p s = s\<lparr>reg_calls := (reg_calls s)[c := (reg_calls s ! c)\<lparr>call_pc := p\<rparr>]\<rparr>"

text \<open>
  Calling \<open>get\<close>, \<open>set\<close> or \<open>clear\<close>: the call runs into \<open>loadOnce\<close> up to its first
  \<open>await\<close>. The new call is the last of \<open>reg_calls\<close>.
\<close>

definition call :: "request \<Rightarrow> registry \<Rightarrow> registry" where
  "call r s =
     (case loadOnce_start (reg_store s) of
        (reads, st1) \<Rightarrow>
          s\<lparr>reg_store := st1,
            reg_calls := reg_calls s @
              [\<lparr>call_request = r, call_pc = (if reads then AwaitRead else AwaitLoad)\<rparr>]\<rparr>)"

text \<open>
  The part of \<open>get\<close>, \<open>set\<close> and \<open>clear\<close> after \<open>await this.loadOnce()\<close>, up to the
  next \<open>await\<close>.
\<close>

definition proceed :: "nat \<Rightarrow> request \<Rightarrow> registry \<Rightarrow> registry" where
  "proceed c r s =
     (let st = reg_store s in
      case r of
        GetCall chatId \<Rightarrow>
          set_pc c (Finished (Returned (sessions st (String_number chatId)))) s
      | SetCall chatId sid \<Rightarrow>
          (set_pc c AwaitWrite s)
            \<lparr>reg_store := st\<lparr>sessions := (sessions st)(String_number chatId \<mapsto> sid)\<rparr>,
             reg_writers := reg_writers s @ [c]\<rparr>
      | ClearCall chatId \<Rightarrow>
          (set_pc c AwaitWrite s)
            \<lparr>reg_store := st\<lparr>sessions := (sessions st)(String_number chatId := None)\<rparr>,
             reg_writers := reg_writers s @ [c]\<rparr>)"

text \<open>
  The write that \<open>persistQueued\<close> chained for call \<open>c\<close>, when its turn in the chain has
  come: skipped when the chain is rejected; otherwise the payload of all sessions, as
  they are when the write runs, replaces the file, and parses back to the sessions as
  strings. The write is one step here (\<open>fs.mkdir\<close>, \<open>JSON.stringify\<close> and
  \<open>fs.writeFile\<close> together), so a read does not meet a file half written.
\<close>

definition persistQueued_write :: "nat \<Rightarrow> write_outcome \<Rightarrow> registry \<Rightarrow> registry" where
  "persistQueued_write c io s =
     (let st = reg_store s; s1 = s\<lparr>reg_writers := tl (reg_writers s)\<rparr> in
      case writeQueue st of
        Rejected \<Rightarrow> set_pc c (Finished Threw) s1
      | Fulfilled \<Rightarrow>
          (case io of
             WriteCompletes \<Rightarrow>
               (set_pc c (Finished (Returned None)) s1)
                 \<lparr>reg_disk := Document (\<lambda>chatId. map_option JStr (sessions st chatId))\<rparr>
           | WriteFails left \<Rightarrow>
               (set_pc c (Finished Threw) s1)
                 \<lparr>reg_disk := left, reg_store := st\<lparr>writeQueue := Rejected\<rparr>\<rparr>))"

text \<open>
  Call \<open>c\<close> runs from the \<open>await\<close> where it is suspended to its next one; \<open>io\<close> is what
  happens to its write, if the step is the write. A call that has finished, or whose
  write is not the first of the chain, stays as it is.
\<close>

definition advance :: "nat \<Rightarrow> write_outcome \<Rightarrow> registry \<Rightarrow> registry" where
  "advance c io s =
     (if c < length (reg_calls s) then
        (case call_pc (reg_calls s ! c) of
           AwaitRead \<Rightarrow> set_pc c (GotFile (reg_disk s)) s
         | GotFile payload \<Rightarrow>
             (case loadOnce_finish payload (reg_store s) of
                (Threw, st1) \<Rightarrow> (set_pc c (Finished Threw) s)\<lparr>reg_store := st1\<rparr>
              | (Returned u, st1) \<Rightarrow> (set_pc c AwaitLoad s)\<lparr>reg_store := st1\<rparr>)
         | AwaitLoad \<Rightarrow> proceed c (call_request (reg_calls s ! c)) s
         | AwaitWrite \<Rightarrow>
             (if reg_writers s \<noteq> [] \<and> hd (reg_writers s) = c then persistQueued_write c io s else s)
         | Finished r \<Rightarrow> s)
      else s)"


definition call_result :: "registry \<Rightarrow> nat \<Rightarrow> jsstring option completion option" where
  "call_result s c =
     (if c < length (reg_calls s) then
        (case call_pc (reg_calls s ! c) of Finished r \<Rightarrow> Some r | _ \<Rightarrow> None)
      else None)"

text \<open>
  A call that is made and awaited with nothing else running in between: the call and
  its steps, of which there are at most four (the read, the rest of \<open>loadOnce\<close>, the
  body, the write).
\<close>

definition alone :: "request \<Rightarrow> write_outcome \<Rightarrow> registry \<Rightarrow> registry" where
  "alone r io s =
     (let c = length (reg_calls s)
      in advance c io (advance c io (advance c io (advance c io (call r s)))))"

text \<open>What such a call returns; \<open>None\<close> when it is still suspended.\<close>

definition returned_by :: "request \<Rightarrow> write_outcome \<Rightarrow> registry \<Rightarrow> jsstring option completion option" where
  "returned_by r io s = call_result (alone r io s) (length (reg_calls s))"

text \<open>A new process on a given file.\<close>

definition new_registry :: "sessions_file \<Rightarrow> registry" where
  "new_registry payload = \<lparr>reg_store = new_SessionStore, reg_disk = payload, reg_calls = [],
     reg_writers = []\<rparr>"

text \<open>
  Runs in which a call overlaps the first load of a new store. The file holds a session
  \<open>"old"\<close> for \<open>42\<close>. Call 0 is the first call of the process, a \<open>get(1)\<close>; call 1, a
  \<open>set(42, "new")\<close> or a \<open>clear(42)\<close>, is made while call 0 awaits \<open>fs.readFile\<close> and
  changes \<open>sessions\<close>; then the read of call 0 ends and \<open>loadOnce\<close> goes on with what it
  read; then the write of call 1 runs and call 1 returns.
\<close>

definition old_file :: sessions_file where
  "old_file = Document [String_number 42 \<mapsto> JStr (js ''old'')]"


definition clear_during_load :: registry where
  "clear_during_load =
     advance 1 WriteCompletes
       (advance 0 WriteCompletes (advance 0 WriteCompletes
          (advance 1 WriteCompletes
             (call (ClearCall 42) (call (GetCall 1) (new_registry old_file))))))"

section \<open>The per-conversation queue (telegram-relay.ts, enqueueByChat)\<close>

text \<open>
  Every call of \<open>enqueueByChat\<close> builds one promise chain
  \<open>next = previous.then(task, task).catch(log).finally(cleanup)\<close>. A cell records such a
  call: its chat, the promise \<open>previous\<close> it was chained to (\<open>None\<close> for
  \<open>Promise.resolve()\<close>, otherwise the \<open>next\<close> of an earlier call, named by the index of
  that call) and how far the chain has got:
  \<^item> \<open>Waiting\<close>: the reaction \<open>then(task, task)\<close> has not run, the task is not called;
  \<^item> \<open>Running\<close>: the task has been called and its promise is pending;
  \<^item> \<open>Settled ok\<close>: the promise of the task is fulfilled (\<open>ok\<close>) or rejected; \<open>catch\<close>
    turns a rejection into a fulfilment, the \<open>finally\<close> callback has not run;
  \<^item> \<open>Cleaned\<close>: the \<open>finally\<close> callback has run, \<open>next\<close> is still pending;
  \<^item> \<open>Done\<close>: \<open>next\<close> is fulfilled.
  A task is the closure handed to one call, so the index of the call names it.
\<close>

datatype phase = Waiting | Running | Settled bool | Cleaned | Done

record cell =
  cell_chat :: int
  previous :: "nat option"
  cell_phase :: phase

text \<open>What an observer sees: a task is called, the promise of a task settles.\<close>

datatype event = Started int nat | Ended int nat

record relay_state =
  inFlightByChat :: "int \<rightharpoonup> nat"
  cells :: "cell list"
  trace :: "event list"

definition init_state :: relay_state where
  "init_state = \<lparr>inFlightByChat = Map.empty, cells = [], trace = []\<rparr>"

text \<open>The body of \<open>enqueueByChat\<close>; \<open>next\<close> is the new cell.\<close>

definition enqueueByChat :: "int \<Rightarrow> relay_state \<Rightarrow> relay_state" where
  "enqueueByChat chatId s =
     (let prev = inFlightByChat s chatId;
          next = length (cells s)
      in s\<lparr>cells := cells s @ [\<lparr>cell_chat = chatId, previous = prev, cell_phase = Waiting\<rparr>],
            inFlightByChat := (inFlightByChat s)(chatId \<mapsto> next)\<rparr>)"

definition set_phase :: "nat \<Rightarrow> phase \<Rightarrow> relay_state \<Rightarrow> relay_state" where
  "set_phase i p s = s\<lparr>cells := (cells s)[i := (cells s ! i)\<lparr>cell_phase := p\<rparr>]\<rparr>"

text \<open>The \<open>finally\<close> callback of cell \<open>i\<close>.\<close>

definition cleanup :: "nat \<Rightarrow> relay_state \<Rightarrow> relay_state" where
  "cleanup i s =
     (let chatId = cell_chat (cells s ! i)
      in if inFlightByChat s chatId = Some i
         then s\<lparr>inFlightByChat := (inFlightByChat s)(chatId := None)\<rparr>
         else s)"

text \<open>The promise of the task has settled and the \<open>finally\<close> callback is due.\<close>

fun is_settled :: "phase \<Rightarrow> bool" where
  "is_settled (Settled ok) = True"
| "is_settled p = False"

text \<open>
  The steps of the event loop that concern the queue, each run to completion:
  a call of \<open>enqueueByChat\<close>; the reaction that calls the task of cell \<open>i\<close>, once
  \<open>previous\<close> has settled; the promise of that task settling, fulfilled or rejected; the
  \<open>finally\<close> callback; and \<open>next\<close> becoming fulfilled. Any order of enabled steps is
  allowed, which includes the order of the microtask queue.
\<close>

datatype action = Enqueue int | Start nat | Finish nat bool | Cleanup nat | Resolve nat

fun step :: "action \<Rightarrow> relay_state \<Rightarrow> relay_state option" where
  "step (Enqueue chatId) s = Some (enqueueByChat chatId s)"
| "step (Start i) s =
     (if i < length (cells s) \<and> cell_phase (cells s ! i) = Waiting \<and>
         (case previous (cells s ! i) of
            None \<Rightarrow> True
          | Some p \<Rightarrow> p < length (cells s) \<and> cell_phase (cells s ! p) = Done)
      then Some ((set_phase i Running s)\<lparr>trace := trace s @ [Started (cell_chat (cells s ! i)) i]\<rparr>)
      else None)"
| "step (Finish i ok) s =
     (if i < length (cells s) \<and> cell_phase (cells s ! i) = Running
      then Some ((set_phase i (Settled ok) s)\<lparr>trace := trace s @ [Ended (cell_chat (cells s ! i)) i]\<rparr>)
      else None)"
| "step (Cleanup i) s =
     (if i < length (cells s) \<and> is_settled (cell_phase (cells s ! i))
      then Some (set_phase i Cleaned (cleanup i s))
      else None)"
| "step (Resolve i) s =
     (if i < length (cells s) \<and> cell_phase (cells s ! i) = Cleaned
      then Some (set_phase i Done s)
      else None)"

fun run :: "action list \<Rightarrow> relay_state \<Rightarrow> relay_state option" where
  "run [] s = Some s"
| "run (a # as) s = (case step a s of None \<Rightarrow> None | Some s' \<Rightarrow> run as s')"

text \<open>The chats of the calls of \<open>enqueueByChat\<close> in a run, in the order of the calls.\<close>

fun submissions :: "action list \<Rightarrow> int list" where
  "submissions [] = []"
| "submissions (Enqueue chatId # as) = chatId # submissions as"
| "submissions (a # as) = submissions as"

text \<open>The events of one chat.\<close>

fun event_chat :: "event \<Rightarrow> int" where
  "event_chat (Started chatId i) = chatId"
| "event_chat (Ended chatId i) = chatId"

definition chat_trace :: "int \<Rightarrow> event list \<Rightarrow> event list" where
  "chat_trace chatId tr = filter (\<lambda>e. event_chat e = chatId) tr"



subsection \<open>The task of a message (telegram-relay.ts, the closure handed to enqueueByChat)\<close>

text \<open>
  The awaited calls of the task that the message handler hands to \<open>enqueueByChat\<close>, in
  the order of the \<open>try\<close> block. What the calls compute is left out; whether a call
  returns or throws, and the two tests the block makes, are given by the environment.
  \<open>saveChatMessage\<close>, \<open>buildSupabasePromptContext\<close> and \<open>processMemoryIntents\<close> catch
  their own errors. The \<open>finally\<close> block (the typing timer, the downloaded files) is
  left out.
\<close>

datatype call = BuildPayload | SaveChatMessage | SessionsGet | BuildSupabasePromptContext
  | RunCodexTurn | SessionsSet | ProcessMemoryIntents | SendResponse | ReplyError

record task_env =
  payload_built :: bool
  session_read :: bool
  turn_returned :: bool
  session_known :: bool
  session_written :: bool
  retry_wanted :: bool
  retry_returned :: bool
  session_known_after_retry :: bool
  session_written_after_retry :: bool
  response_sent :: bool

text \<open>
  An awaited call inside the \<open>try\<close> block: when it throws, the \<open>catch\<close> block replies
  with the error and the rest of the block is skipped.
\<close>

definition attempt :: "call \<Rightarrow> bool \<Rightarrow> call list \<Rightarrow> call list" where
  "attempt c returns rest = c # (if returns then rest else [ReplyError])"

definition message_task :: "task_env \<Rightarrow> call list" where
  "message_task env =
     attempt BuildPayload (payload_built env)
      (SaveChatMessage #
       attempt SessionsGet (session_read env)
        (BuildSupabasePromptContext #
         attempt RunCodexTurn (turn_returned env)
          ((if session_known env then attempt SessionsSet (session_written env) else id)
            (ProcessMemoryIntents #
             (if retry_wanted env then
                attempt RunCodexTurn (retry_returned env)
                 ((if session_known_after_retry env
                   then attempt SessionsSet (session_written_after_retry env) else id)
                   (ProcessMemoryIntents #
                    SaveChatMessage # attempt SendResponse (response_sent env) []))
              else SaveChatMessage # attempt SendResponse (response_sent env) [])))))"

subsection \<open>Invariants of the queue\<close>

abbreviation ph :: "relay_state \<Rightarrow> nat \<Rightarrow> phase" where
  "ph s i \<equiv> cell_phase (cells s ! i)"

abbreviation ch :: "relay_state \<Rightarrow> nat \<Rightarrow> int" where
  "ch s i \<equiv> cell_chat (cells s ! i)"

abbreviation pv :: "relay_state \<Rightarrow> nat \<Rightarrow> nat option" where
  "pv s i \<equiv> previous (cells s ! i)"

text \<open>The \<open>finally\<close> callback of the cell has run.\<close>

fun cleaned :: "phase \<Rightarrow> bool" where
  "cleaned Cleaned = True"
| "cleaned Done = True"
| "cleaned p = False"

text \<open>The events a cell in a given phase has produced.\<close>

fun events_of :: "int \<Rightarrow> nat \<Rightarrow> phase \<Rightarrow> event list" where
  "events_of k i Waiting = []"
| "events_of k i Running = [Started k i]"
| "events_of k i p = [Started k i, Ended k i]"

definition expected :: "int \<Rightarrow> cell list \<Rightarrow> event list" where
  "expected k cs =
     concat (map (\<lambda>i. if cell_chat (cs ! i) = k then events_of k i (cell_phase (cs ! i)) else [])
               [0..<length cs])"

text \<open>
  An entry of \<open>inFlightByChat\<close> is the last call for its chat and its callback has not
  run; a chat without an entry has only cells whose callback has run.
\<close>

definition inv_map :: "relay_state \<Rightarrow> bool" where
  "inv_map s \<longleftrightarrow>
     (\<forall>k i. inFlightByChat s k = Some i \<longrightarrow>
        i < length (cells s) \<and> ch s i = k \<and> \<not> cleaned (ph s i) \<and>
        (\<forall>j. i < j \<and> j < length (cells s) \<longrightarrow> ch s j \<noteq> k)) \<and>
     (\<forall>k j. inFlightByChat s k = None \<and> j < length (cells s) \<and> ch s j = k \<longrightarrow> cleaned (ph s j))"

text \<open>
  \<open>previous\<close> is the call before this one for the same chat, or is \<open>Promise.resolve()\<close>
  when all earlier calls for the chat have had their callback run.
\<close>

definition inv_prev :: "relay_state \<Rightarrow> bool" where
  "inv_prev s \<longleftrightarrow>
     (\<forall>j i. j < length (cells s) \<and> pv s j = Some i \<longrightarrow>
        i < j \<and> ch s i = ch s j \<and> (\<forall>m. i < m \<and> m < j \<longrightarrow> ch s m \<noteq> ch s j)) \<and>
     (\<forall>j i. j < length (cells s) \<and> pv s j = None \<and> i < j \<and> ch s i = ch s j \<longrightarrow>
        cleaned (ph s i))"

text \<open>A task has been called only if every earlier call for its chat is through.\<close>

definition inv_order :: "relay_state \<Rightarrow> bool" where
  "inv_order s \<longleftrightarrow>
     (\<forall>j i. j < length (cells s) \<and> ph s j \<noteq> Waiting \<and> i < j \<and> ch s i = ch s j \<longrightarrow>
        cleaned (ph s i))"

definition inv_trace :: "relay_state \<Rightarrow> bool" where
  "inv_trace s \<longleftrightarrow> (\<forall>k. chat_trace k (trace s) = expected k (cells s))"

definition queue_inv :: "relay_state \<Rightarrow> bool" where
  "queue_inv s \<longleftrightarrow> inv_map s \<and> inv_prev s \<and> inv_order s \<and> inv_trace s"

text \<open>How many steps a cell has taken.\<close>

fun phase_rank :: "phase \<Rightarrow> nat" where
  "phase_rank Waiting = 0"
| "phase_rank Running = 1"
| "phase_rank (Settled ok) = 2"
| "phase_rank Cleaned = 3"
| "phase_rank Done = 4"

definition progress :: "relay_state \<Rightarrow> nat" where
  "progress s = sum_list (map (\<lambda>c. phase_rank (cell_phase c)) (cells s))"

section \<open>Properties of the authorization check\<close>

text \<open>
  C10: with an empty allow-list \<open>isAuthorized\<close> is true for every update, whether it
  carries a chat or not; only a non-empty allow-list restricts, and then exactly the
  updates whose chat id is in the list are authorized.
\<close>

theorem isAuthorized_empty_allow_list:
  "(allowedChatIds cfg = {||} \<longrightarrow> isAuthorized cfg ctx) \<and>
   (allowedChatIds cfg \<noteq> {||} \<longrightarrow>
      (isAuthorized cfg ctx \<longleftrightarrow> (\<exists>c. chat ctx = Some c \<and> chat_id c |\<in>| allowedChatIds cfg)))"
  by (auto simp: isAuthorized_def split: option.splits)

theorem isAuthorized_empty_allow_list_witness:
  "allowedChatIds \<lparr>allowedChatIds = {||}, maxReplyChars = 3800\<rparr> = {||} \<and>
   isAuthorized \<lparr>allowedChatIds = {||}, maxReplyChars = 3800\<rparr> \<lparr>chat = None\<rparr> \<and>
   isAuthorized \<lparr>allowedChatIds = {||}, maxReplyChars = 3800\<rparr> \<lparr>chat = Some \<lparr>chat_id = 42\<rparr>\<rparr> \<and>
   allowedChatIds \<lparr>allowedChatIds = {|7|}, maxReplyChars = 3800\<rparr> \<noteq> {||} \<and>
   \<not> isAuthorized \<lparr>allowedChatIds = {|7|}, maxReplyChars = 3800\<rparr> \<lparr>chat = Some \<lparr>chat_id = 42\<rparr>\<rparr>"
  using isAuthorized_empty_allow_list
          [of "\<lparr>allowedChatIds = {||}, maxReplyChars = 3800\<rparr>" "\<lparr>chat = None\<rparr>"]
        isAuthorized_empty_allow_list
          [of "\<lparr>allowedChatIds = {||}, maxReplyChars = 3800\<rparr>" "\<lparr>chat = Some \<lparr>chat_id = 42\<rparr>\<rparr>"]
        isAuthorized_empty_allow_list
          [of "\<lparr>allowedChatIds = {|7|}, maxReplyChars = 3800\<rparr>" "\<lparr>chat = Some \<lparr>chat_id = 42\<rparr>\<rparr>"]
  by simp

section \<open>Properties of the reply chunker\<close>

subsection \<open>The cut position and the two halves\<close>

lemma lastIndexOf_le: "lastIndexOf s c k \<le> int k"
  by (induction k) auto

lemma lastIndexOf_ge: "- 1 \<le> lastIndexOf s c k"
  by (induction k) auto

lemma splitCut_bounds: "0 \<le> splitCut mx r" "splitCut mx r \<le> int mx" "3 * int mx \<le> 5 * splitCut mx r"
  using lastIndexOf_le [of r 10 mx] lastIndexOf_ge [of r 10 mx]
  by (auto simp: splitCut_def Let_def)

lemma splitCut_pos: "0 < mx \<Longrightarrow> 0 < splitCut mx r"
  using splitCut_bounds(3) [of mx r] by linarith

lemma slice_prefix: "0 \<le> c \<Longrightarrow> slice s 0 c = take (nat c) s"
  by (auto simp: slice_def Let_def min_def)

lemma slice_from_drop: "0 \<le> c \<Longrightarrow> slice_from s c = drop (nat c) s"
  by (auto simp: slice_from_def slice_def Let_def min_def)

lemma length_trimStart: "length (trimStart s) \<le> length s"
  by (simp add: trimStart_def length_dropWhile_le)

lemma length_trimEnd: "length (trimEnd s) \<le> length s"
  using length_dropWhile_le [of is_ws "rev s"] by (simp add: trimEnd_def)

lemma length_trim: "length (trim s) \<le> length s"
  using length_trimEnd [of "trimStart s"] length_trimStart [of s] by (simp add: trim_def)

lemma splitLoop_unfold:
  "splitLoop mx chunks remaining =
     (if length remaining > mx then
        splitLoop mx (chunks @ [trim (take (nat (splitCut mx remaining)) remaining)])
          (trimStart (drop (nat (splitCut mx remaining)) remaining))
      else Some (chunks, remaining))"
  using splitCut_bounds(1) [of mx remaining]
  by (subst splitLoop.simps) (simp add: Let_def splitCut_def slice_prefix slice_from_drop)

lemma splitLoop_iters_unfold:
  "splitLoop_iters mx chunks remaining n =
     (if length remaining > mx then
        splitLoop_iters mx (chunks @ [trim (take (nat (splitCut mx remaining)) remaining)])
          (trimStart (drop (nat (splitCut mx remaining)) remaining)) (Suc n)
      else Some ((chunks, remaining), n))"
  using splitCut_bounds(1) [of mx remaining]
  by (subst splitLoop_iters.simps) (simp add: Let_def splitCut_def slice_prefix slice_from_drop)

lemma chunk_length: "length (trim (take (nat (splitCut mx r)) r)) \<le> mx"
proof -
  have "length (trim (take (nat (splitCut mx r)) r)) \<le> length (take (nat (splitCut mx r)) r)"
    by (rule length_trim)
  also have "\<dots> \<le> nat (splitCut mx r)" by simp
  also have "\<dots> \<le> mx" using splitCut_bounds(2) [of mx r] by simp
  finally show ?thesis .
qed

lemma rest_length:
  assumes "0 < mx" "mx < length r"
  shows "length (trimStart (drop (nat (splitCut mx r)) r)) < length r"
    and "5 * length (trimStart (drop (nat (splitCut mx r)) r)) + 3 * mx \<le> 5 * length r"
proof -
  let ?c = "nat (splitCut mx r)"
  have c: "0 < ?c" "?c \<le> mx" "3 * mx \<le> 5 * ?c"
    using splitCut_pos [OF assms(1), of r] splitCut_bounds [of mx r] by auto
  have "length (trimStart (drop ?c r)) \<le> length r - ?c"
    using length_trimStart [of "drop ?c r"] by simp
  with c assms show "length (trimStart (drop ?c r)) < length r"
    and "5 * length (trimStart (drop ?c r)) + 3 * mx \<le> 5 * length r" by auto
qed

lemma splitLoop_bounded:
  assumes run: "splitLoop mx chunks remaining = Some y"
  shows "(\<forall>c \<in> set chunks. length c \<le> mx) \<longrightarrow>
     (\<forall>c \<in> set (fst y). length c \<le> mx) \<and> length (snd y) \<le> mx"
proof (rule splitLoop.raw_induct [where P = "\<lambda>mx chunks remaining y.
     (\<forall>c \<in> set chunks. length c \<le> mx) \<longrightarrow>
     (\<forall>c \<in> set (fst y). length c \<le> mx) \<and> length (snd y) \<le> mx", OF _ run])
  fix loop :: "nat \<Rightarrow> jsstring list \<Rightarrow> jsstring \<Rightarrow> (jsstring list \<times> jsstring) option"
  fix mx chunks remaining y
  assume IH: "\<And>mx chunks remaining y. loop mx chunks remaining = Some y \<Longrightarrow>
     (\<forall>c \<in> set chunks. length c \<le> mx) \<longrightarrow>
     (\<forall>c \<in> set (fst y). length c \<le> mx) \<and> length (snd y) \<le> mx"
  assume body: "(if mx < length remaining
      then let cut0 = lastIndexOf remaining 10 mx;
               cut = if 5 * cut0 < 3 * int mx then int mx else cut0
           in loop mx (chunks @ [trim (slice remaining 0 cut)])
               (trimStart (slice_from remaining cut))
      else Some (chunks, remaining)) = Some y"
  show "(\<forall>c \<in> set chunks. length c \<le> mx) \<longrightarrow>
     (\<forall>c \<in> set (fst y). length c \<le> mx) \<and> length (snd y) \<le> mx"
  proof (cases "mx < length remaining")
    case True
    with body have "loop mx (chunks @ [trim (slice remaining 0 (splitCut mx remaining))])
        (trimStart (slice_from remaining (splitCut mx remaining))) = Some y"
      by (simp add: Let_def splitCut_def)
    from IH [OF this] chunk_length [of mx remaining] splitCut_bounds(1) [of mx remaining]
    show ?thesis by (simp add: slice_prefix)
  next
    case False
    with body show ?thesis by auto
  qed
qed

lemma splitLoop_terminates:
  assumes "0 < mx"
  shows "\<exists>y. splitLoop mx chunks remaining = Some y"
proof (induction "length remaining" arbitrary: chunks remaining rule: less_induct)
  case less
  show ?case
  proof (cases "mx < length remaining")
    case True
    from less [OF rest_length(1) [OF assms True]] True show ?thesis
      by (subst splitLoop_unfold) simp
  next
    case False
    then show ?thesis by (subst splitLoop_unfold) simp
  qed
qed

lemma splitLoop_iters_spec:
  assumes "0 < mx"
  shows "\<exists>y k. splitLoop_iters mx chunks remaining n = Some (y, n + k) \<and>
            splitLoop mx chunks remaining = Some y \<and>
            (if mx < length remaining then 3 * mx * k < 5 * length remaining else k = 0)"
proof (induction "length remaining" arbitrary: chunks remaining n rule: less_induct)
  case less
  show ?case
  proof (cases "mx < length remaining")
    case True
    let ?r = "trimStart (drop (nat (splitCut mx remaining)) remaining)"
    let ?c = "chunks @ [trim (take (nat (splitCut mx remaining)) remaining)]"
    from less [OF rest_length(1) [OF assms True], of ?c "Suc n"]
    obtain y k where yk: "splitLoop_iters mx ?c ?r (Suc n) = Some (y, Suc n + k)"
      "splitLoop mx ?c ?r = Some y"
      "if mx < length ?r then 3 * mx * k < 5 * length ?r else k = 0" by blast
    have "3 * mx * Suc k < 5 * length remaining"
    proof (cases "mx < length ?r")
      case True
      with yk(3) have "3 * mx * k < 5 * length ?r" by simp
      with rest_length(2) [OF assms \<open>mx < length remaining\<close>] show ?thesis by simp
    next
      case False
      with yk(3) have "k = 0" by simp
      with \<open>mx < length remaining\<close> assms show ?thesis by simp
    qed
    moreover have "splitLoop_iters mx chunks remaining n = Some (y, n + Suc k)"
      using yk(1) True by (subst splitLoop_iters_unfold) simp
    moreover have "splitLoop mx chunks remaining = Some y"
      using yk(2) True by (subst splitLoop_unfold) simp
    ultimately show ?thesis using True by (intro exI [of _ y] exI [of _ "Suc k"]) simp
  next
    case False
    then show ?thesis
      by (subst splitLoop_iters_unfold, subst splitLoop_unfold) simp
  qed
qed

lemma trim_nonempty: "s \<noteq> [] \<Longrightarrow> \<not> is_ws (hd s) \<Longrightarrow> trim s \<noteq> []"
proof -
  assume a: "s \<noteq> []" "\<not> is_ws (hd s)"
  then have ts: "trimStart s = s" by (cases s) (auto simp: trimStart_def)
  have "hd s \<in> set (rev s)" using a(1) by simp
  with a(2) have "dropWhile is_ws (rev s) \<noteq> []"
    by (auto simp: dropWhile_eq_Nil_conv)
  then show ?thesis by (simp add: trim_def ts trimEnd_def)
qed

lemma trimStart_hd: "trimStart s = [] \<or> \<not> is_ws (hd (trimStart s))"
  using hd_dropWhile [of is_ws s] by (auto simp: trimStart_def)

lemma splitLoop_nonempty:
  assumes "0 < mx"
  shows "splitLoop mx chunks remaining = Some y \<Longrightarrow> [] \<notin> set chunks \<Longrightarrow>
           remaining = [] \<or> \<not> is_ws (hd remaining) \<Longrightarrow>
           [] \<notin> set (fst y) "
proof (induction "length remaining" arbitrary: chunks remaining rule: less_induct)
  case less
  show ?case
  proof (cases "mx < length remaining")
    case True
    let ?n = "nat (splitCut mx remaining)"
    let ?r = "trimStart (drop ?n remaining)"
    let ?c = "chunks @ [trim (take ?n remaining)]"
    have run: "splitLoop mx ?c ?r = Some y"
      using less.prems(1) True by (subst (asm) splitLoop_unfold) simp
    have ne: "remaining \<noteq> []" using True by auto
    with less.prems(3) have hd: "\<not> is_ws (hd remaining)" by simp
    have "0 < ?n" using splitCut_pos [OF assms, of remaining] by simp
    with ne hd have "take ?n remaining \<noteq> []" "\<not> is_ws (hd (take ?n remaining))"
      by (cases remaining; cases ?n; simp)+
    then have "trim (take ?n remaining) \<noteq> []" by (rule trim_nonempty)
    with less.prems(2) have "[] \<notin> set ?c" by auto
    from less.hyps [OF rest_length(1) [OF assms True] run this trimStart_hd]
    show ?thesis .
  next
    case False
    with less.prems show ?thesis by (subst (asm) splitLoop_unfold) auto
  qed
qed

lemma splitForTelegram_iters_spec:
  assumes "0 < mx"
  shows "\<exists>chunks k. splitForTelegram_iters text mx = Some (chunks, k) \<and>
            splitForTelegram text mx = Some chunks \<and> 3 * mx * k \<le> 5 * length text"
proof (cases "length text \<le> mx")
  case True
  then show ?thesis by (simp add: splitForTelegram_iters_def splitForTelegram_def)
next
  case False
  from splitLoop_iters_spec [OF assms, of "[]" "text" 0]
  obtain y k where yk: "splitLoop_iters mx [] text 0 = Some (y, k)"
    "splitLoop mx [] text = Some y" "3 * mx * k < 5 * length text"
    using False by auto
  then show ?thesis using False
    by (cases y) (simp add: splitForTelegram_iters_def splitForTelegram_def)
qed

lemma splitForTelegram_nonempty:
  assumes "0 < mx" "text \<noteq> []" "\<not> is_ws (hd text)" "splitForTelegram text mx = Some chunks"
  shows "[] \<notin> set chunks"
proof (cases "length text \<le> mx")
  case True
  with assms show ?thesis by (auto simp: splitForTelegram_def)
next
  case False
  with assms(4) obtain cs r where run: "splitLoop mx [] text = Some (cs, r)"
    and res: "chunks = (if length r > 0 then cs @ [r] else cs)"
    by (auto simp: splitForTelegram_def split: option.splits)
  from splitLoop_nonempty [OF assms(1) run] assms(3) have "[] \<notin> set cs" by simp
  with res show ?thesis by auto
qed

lemma iters_ceiling:
  assumes "0 < mx" "3 * mx * k \<le> 5 * n"
  shows "int k \<le> \<lceil>real n / (0.6 * real mx)\<rceil>"
proof -
  have "real (3 * mx * k) \<le> real (5 * n)" using assms(2) by (rule iffD2 [OF of_nat_le_iff])
  then have "3 * real mx * real k \<le> 5 * real n" by simp
  then have "real k * (0.6 * real mx) \<le> real n" by (simp add: algebra_simps)
  then have "real k \<le> real n / (0.6 * real mx)"
    using assms(1) by (simp add: pos_le_divide_eq)
  then have "real_of_int (int k) \<le> real n / (0.6 * real mx)" by simp
  then show ?thesis by (simp only: le_ceiling_iff)
qed

lemma lastIndexOf_numeral:
  "lastIndexOf s c (numeral k) =
     (if numeral k < length s \<and> s ! numeral k = c then int (numeral k)
      else lastIndexOf s c (pred_numeral k))"
  by (simp only: numeral_eq_Suc lastIndexOf.simps)

lemmas split_eval = splitCut_def trim_def trimStart_def trimEnd_def is_ws_def lastIndexOf_numeral

lemma splitForTelegram_example:
  "splitForTelegram [97, 98, 10, 99, 100, 101, 102, 10, 10, 103, 104] 4 =
     Some [[97, 98, 10, 99], [100, 101, 102], [103, 104]]"
  unfolding splitForTelegram_def
  apply (subst splitLoop_unfold, simp add: split_eval)
  apply (subst splitLoop_unfold, simp add: split_eval)
  apply (subst splitLoop_unfold, simp add: split_eval)
  done

text \<open>
  C6 (amended): every segment that \<open>splitForTelegram\<close> returns is at most \<open>max\<close> code
  units long, it does return whenever \<open>max\<close> is at least 1, and a text no longer than
  \<open>max\<close> comes back as exactly one segment, the text itself. That segment is the input
  unchanged, not the trimmed input: the early return hands \<open>[text]\<close> back before any
  trimming.
\<close>

theorem splitForTelegram_segments:
  "(\<forall>chunks. splitForTelegram text mx = Some chunks \<longrightarrow> (\<forall>c \<in> set chunks. length c \<le> mx)) \<and>
   (0 < mx \<longrightarrow> splitForTelegram text mx \<noteq> None) \<and>
   (length text \<le> mx \<longrightarrow> splitForTelegram text mx = Some [text])"
proof (intro conjI allI impI)
  fix chunks assume run: "splitForTelegram text mx = Some chunks"
  show "\<forall>c \<in> set chunks. length c \<le> mx"
  proof (cases "length text \<le> mx")
    case True
    with run show ?thesis by (auto simp: splitForTelegram_def)
  next
    case False
    with run obtain cs r where loop: "splitLoop mx [] text = Some (cs, r)"
      and res: "chunks = (if length r > 0 then cs @ [r] else cs)"
      by (auto simp: splitForTelegram_def split: option.splits)
    from splitLoop_bounded [OF loop] have "\<forall>c \<in> set cs. length c \<le> mx" "length r \<le> mx"
      by simp_all
    with res show ?thesis by auto
  qed
next
  assume "0 < mx"
  from splitForTelegram_iters_spec [OF this, of "text"]
  show "splitForTelegram text mx \<noteq> None" by auto
next
  assume "length text \<le> mx"
  then show "splitForTelegram text mx = Some [text]" by (simp add: splitForTelegram_def)
qed

theorem splitForTelegram_segments_witness:
  "splitForTelegram [97, 98, 10, 99, 100, 101, 102, 10, 10, 103, 104] 4 =
     Some [[97, 98, 10, 99], [100, 101, 102], [103, 104]] \<and>
   list_all (\<lambda>c. length c \<le> 4) [[97, 98, 10, 99], [100, 101, 102], [103, 104 :: nat]] \<and>
   (0::nat) < 4 \<and>
   splitForTelegram [97, 98, 10, 99, 100, 101, 102, 10, 10, 103, 104] 4 \<noteq> None \<and>
   length (js '' a '') \<le> 5 \<and> splitForTelegram (js '' a '') 5 = Some [js '' a '']"
  using splitForTelegram_segments [of "[97, 98, 10, 99, 100, 101, 102, 10, 10, 103, 104]" 4]
    splitForTelegram_segments [of "js '' a ''" 5] splitForTelegram_example
  by (simp add: js_def)

text \<open>
  The short text \<open>" a "\<close> with \<open>max = 5\<close> is returned with its blanks; the trimmed
  input would be \<open>"a"\<close>.
\<close>

theorem splitForTelegram_untrimmed_counterexample:
  "length (js '' a '') \<le> 5 \<and> splitForTelegram (js '' a '') 5 \<noteq> Some [trim (js '' a '')]"
  by (simp add: splitForTelegram_def js_def trim_def trimStart_def trimEnd_def is_ws_def)

lemma trim_eq_Nil: "trim s = [] \<longleftrightarrow> (\<forall>c \<in> set s. is_ws c)"
proof
  assume "trim s = []"
  then have all: "\<forall>c \<in> set (dropWhile is_ws s). is_ws c"
    by (simp add: trim_def trimStart_def trimEnd_def dropWhile_eq_Nil_conv)
  have "dropWhile is_ws s = []"
  proof (rule ccontr)
    assume ne: "dropWhile is_ws s \<noteq> []"
    then have "\<not> is_ws (hd (dropWhile is_ws s))" by (rule hd_dropWhile)
    moreover from ne have "hd (dropWhile is_ws s) \<in> set (dropWhile is_ws s)" by simp
    ultimately show False using all by blast
  qed
  then show "\<forall>c \<in> set s. is_ws c" by (simp add: dropWhile_eq_Nil_conv)
next
  assume "\<forall>c \<in> set s. is_ws c"
  then have d: "dropWhile is_ws s = []" by (simp add: dropWhile_eq_Nil_conv)
  show "trim s = []" unfolding trim_def trimStart_def trimEnd_def d by simp
qed

lemma splitLoop_keeps:
  assumes "0 < mx"
  shows "splitLoop mx chunks remaining = Some y \<Longrightarrow> set chunks \<subseteq> set (fst y)"
proof (induction "length remaining" arbitrary: chunks remaining rule: less_induct)
  case less
  show ?case
  proof (cases "mx < length remaining")
    case True
    let ?n = "nat (splitCut mx remaining)"
    have "splitLoop mx (chunks @ [trim (take ?n remaining)]) (trimStart (drop ?n remaining)) = Some y"
      using less.prems True by (subst (asm) splitLoop_unfold) simp
    from less.hyps [OF rest_length(1) [OF assms True] this] show ?thesis by simp
  next
    case False
    with less.prems show ?thesis by (subst (asm) splitLoop_unfold) auto
  qed
qed

text \<open>
  An empty segment comes only from the first cut: the text is longer than \<open>max\<close> and
  holds nothing but whitespace before the cut.
\<close>

lemma splitForTelegram_empty_segment:
  assumes mx: "0 < mx" and ne: "text \<noteq> []" and run: "splitForTelegram text mx = Some chunks"
  shows "[] \<in> set chunks \<longleftrightarrow>
           mx < length text \<and> (\<forall>c \<in> set (take (nat (splitCut mx text)) text). is_ws c)"
proof (cases "length text \<le> mx")
  case True
  with ne run show ?thesis by (auto simp: splitForTelegram_def)
next
  case False
  let ?n = "nat (splitCut mx text)"
  let ?first = "trim (take ?n text)"
  from False run obtain cs r where loop: "splitLoop mx [] text = Some (cs, r)"
    and res: "chunks = (if length r > 0 then cs @ [r] else cs)"
    by (auto simp: splitForTelegram_def split: option.splits)
  from res have chunks: "[] \<in> set chunks \<longleftrightarrow> [] \<in> set cs" by auto
  from loop False
  have next_run: "splitLoop mx [?first] (trimStart (drop ?n text)) = Some (cs, r)"
    by (subst (asm) splitLoop_unfold) simp
  have "[] \<in> set cs \<longleftrightarrow> ?first = []"
  proof
    assume "[] \<in> set cs"
    show "?first = []"
    proof (rule ccontr)
      assume "?first \<noteq> []"
      then have "[] \<notin> set [?first]" by simp
      from splitLoop_nonempty [OF mx next_run this trimStart_hd] \<open>[] \<in> set cs\<close>
      show False by simp
    qed
  next
    assume "?first = []"
    with splitLoop_keeps [OF mx next_run] show "[] \<in> set cs" by simp
  qed
  with chunks False show ?thesis by (simp add: trim_eq_Nil)
qed

text \<open>
  C7 (amended): for \<open>max\<close> at least 1 the chunker returns after at most
  \<open>ceil(length / (0.6 * max))\<close> iterations of its loop, and for a text that is not
  empty it returns an empty segment in one case only: the text is longer than \<open>max\<close>
  and everything before its first cut is whitespace. \<open>k\<close> is the number of loop
  iterations, counted by \<open>splitForTelegram_iters\<close>; the first cut is \<open>splitCut max text\<close>,
  the last newline up to \<open>max\<close> when it lies at or past 60% of \<open>max\<close>, else \<open>max\<close>.
\<close>

theorem splitForTelegram_progress:
  assumes "0 < mx"
  shows "\<exists>chunks k. splitForTelegram_iters text mx = Some (chunks, k) \<and>
            splitForTelegram text mx = Some chunks \<and>
            int k \<le> \<lceil>real (length text) / (0.6 * real mx)\<rceil> \<and>
            (text \<noteq> [] \<longrightarrow>
               ([] \<in> set chunks \<longleftrightarrow>
                  mx < length text \<and>
                  (\<forall>c \<in> set (take (nat (splitCut mx text)) text). is_ws c)))"
proof -
  from splitForTelegram_iters_spec [OF assms, of "text"]
  obtain chunks k where ck: "splitForTelegram_iters text mx = Some (chunks, k)"
    "splitForTelegram text mx = Some chunks" "3 * mx * k \<le> 5 * length text" by blast
  have "int k \<le> \<lceil>real (length text) / (0.6 * real mx)\<rceil>"
    using assms ck(3) by (rule iters_ceiling)
  moreover have "text \<noteq> [] \<longrightarrow>
      ([] \<in> set chunks \<longleftrightarrow>
         mx < length text \<and> (\<forall>c \<in> set (take (nat (splitCut mx text)) text). is_ws c))"
    using splitForTelegram_empty_segment [OF assms _ ck(2)] by blast
  ultimately show ?thesis using ck(1,2) by blast
qed

lemma splitForTelegram_example_blank_start:
  "splitForTelegram (js '' abc'') 2 = Some [js ''a'', js ''bc'']"
  unfolding splitForTelegram_def js_def
  apply (subst splitLoop_unfold, simp add: split_eval)
  apply (subst splitLoop_unfold, simp add: split_eval)
  done

theorem splitForTelegram_progress_witness:
  "(0::nat) < 2 \<and> js '' abc'' \<noteq> [] \<and> 2 < length (js '' abc'') \<and>
   take (nat (splitCut 2 (js '' abc''))) (js '' abc'') = js '' a'' \<and>
   \<not> list_all is_ws (js '' a'') \<and>
   splitForTelegram (js '' abc'') 2 = Some [js ''a'', js ''bc''] \<and>
   (\<exists>chunks k. splitForTelegram_iters (js '' abc'') 2 = Some (chunks, k) \<and>
      splitForTelegram (js '' abc'') 2 = Some chunks \<and> int k \<le> 4 \<and> [] \<notin> set chunks)"
proof -
  have cut: "take (nat (splitCut 2 (js '' abc''))) (js '' abc'') = js '' a''"
    by (simp add: js_def split_eval)
  have ws: "\<not> list_all is_ws (js '' a'')" by (simp add: js_def is_ws_def)
  from splitForTelegram_progress [of 2 "js '' abc''"] cut ws
  have "\<exists>chunks k. splitForTelegram_iters (js '' abc'') 2 = Some (chunks, k) \<and>
      splitForTelegram (js '' abc'') 2 = Some chunks \<and> int k \<le> 4 \<and> [] \<notin> set chunks"
    by (simp add: js_def is_ws_def)
  with cut ws splitForTelegram_example_blank_start show ?thesis by (simp add: js_def)
qed

text \<open>
  A text of two blanks with \<open>max = 1\<close> is not empty, and the chunker returns one
  segment, the empty string: the first cut holds only whitespace and \<open>trim\<close> empties it.
\<close>

theorem splitForTelegram_empty_segment_counterexample:
  "js ''  '' \<noteq> [] \<and> splitForTelegram (js ''  '') 1 = Some [[]]"
  unfolding splitForTelegram_def js_def
  apply (subst splitLoop_unfold, simp add: split_eval)
  apply (subst splitLoop_unfold, simp)
  done

section \<open>Properties of the turn executor\<close>

subsection \<open>One line\<close>

lemma event_types_distinct:
  "js ''error'' \<noteq> js ''turn.failed''" "js ''thread.started'' \<noteq> js ''error''"
  "js ''thread.started'' \<noteq> js ''turn.failed''"
  by (simp_all add: js_def)

lemma consumeLine_alt:
  "consumeLine P line src st =
     (if trim line = [] then st
      else case parsed_event P line of
             None \<Rightarrow> push_line (trim line) src st
           | Some event \<Rightarrow> apply_event event (push_line (trim line) src st))"
  by (simp add: consumeLine_def parsed_event_def Let_def split: option.split json.split)

lemma apply_event_fields:
  "sessionId (apply_event e st) =
     (if get_prop e (js ''type'') = Some (JStr (js ''thread.started''))
      then (case string_prop (get_prop e (js ''thread_id'')) of
              None \<Rightarrow> sessionId st | Some t \<Rightarrow> Some t)
      else sessionId st)"
  "jsonErrors (apply_event e st) = jsonErrors st @
     (if get_prop e (js ''type'') = Some (JStr (js ''error''))
      then (case string_prop (get_prop e (js ''message'')) of None \<Rightarrow> [] | Some m \<Rightarrow> [m])
      else if get_prop e (js ''type'') = Some (JStr (js ''turn.failed''))
      then (case string_prop (get_prop_opt (get_prop e (js ''error'')) (js ''message'')) of
              None \<Rightarrow> [] | Some m \<Rightarrow> [m])
      else [])"
  "stderrLines (apply_event e st) = stderrLines st"
  "stdoutLines (apply_event e st) = stdoutLines st"
  by (simp_all add: apply_event_def Let_def event_types_distinct split: option.split)

lemma push_line_fields:
  "sessionId (push_line t src st) = sessionId st"
  "jsonErrors (push_line t src st) = jsonErrors st"
  "stderrLines (push_line t src st) = stderrLines st @ (if src = Stderr then [t] else [])"
  "stdoutLines (push_line t src st) = stdoutLines st @ (if src = Stdout then [t] else [])"
  by (cases src; simp add: push_line_def)+

lemma consumeLine_blank: "trim line = [] \<Longrightarrow> consumeLine P line src st = st"
  by (simp add: consumeLine_def)

lemma consumeLine_sessionId:
  "sessionId (consumeLine P line src st) =
     (case started_session P line of None \<Rightarrow> sessionId st | Some t \<Rightarrow> Some t)"
  by (simp add: consumeLine_alt started_session_def apply_event_fields push_line_fields
        parsed_event_def split: option.split)

lemma consumeLine_jsonErrors:
  "jsonErrors (consumeLine P line src st) =
     jsonErrors st @ (case error_message P line of None \<Rightarrow> [] | Some m \<Rightarrow> [m])"
  by (simp add: consumeLine_alt error_message_def apply_event_fields push_line_fields
        parsed_event_def split: option.split)

lemma consumeLine_stderrLines:
  "stderrLines (consumeLine P line src st) =
     stderrLines st @ (if src = Stderr \<and> trim line \<noteq> [] then [trim line] else [])"
  by (simp add: consumeLine_alt apply_event_fields push_line_fields split: option.split)

lemma consumeLine_stdoutLines:
  "stdoutLines (consumeLine P line src st) =
     stdoutLines st @ (if src = Stdout \<and> trim line \<noteq> [] then [trim line] else [])"
  by (simp add: consumeLine_alt apply_event_fields push_line_fields split: option.split)

subsection \<open>The closure variables after all lines\<close>

lemma at_last_Cons: "at_last (x # xs) = (case at_last xs of None \<Rightarrow> Some x | Some y \<Rightarrow> Some y)"
  by (simp add: at_last_def)

lemma started_sessions_Cons:
  "started_sessions P ((line, src) # ls) =
     (case started_session P line of None \<Rightarrow> [] | Some t \<Rightarrow> [t]) @ started_sessions P ls"
  by (simp add: started_sessions_def List.map_filter_simps split: option.split)

lemma structured_errors_Cons:
  "structured_errors P ((line, src) # ls) =
     (case error_message P line of None \<Rightarrow> [] | Some m \<Rightarrow> [m]) @ structured_errors P ls"
  by (simp add: structured_errors_def List.map_filter_simps split: option.split)

lemma consumeLines_sessionId:
  "sessionId (consumeLines P ls st) =
     (case at_last (started_sessions P ls) of None \<Rightarrow> sessionId st | Some t \<Rightarrow> Some t)"
proof (induction ls arbitrary: st)
  case Nil
  show ?case by (simp add: started_sessions_def List.map_filter_simps at_last_def)
next
  case (Cons a ls)
  obtain line src where a: "a = (line, src)" by (cases a)
  show ?case
    by (simp add: a Cons.IH consumeLine_sessionId started_sessions_Cons at_last_Cons
          split: option.split)
qed

lemma consumeLines_jsonErrors:
  "jsonErrors (consumeLines P ls st) = jsonErrors st @ structured_errors P ls"
proof (induction ls arbitrary: st)
  case Nil
  show ?case by (simp add: structured_errors_def List.map_filter_simps)
next
  case (Cons a ls)
  obtain line src where a: "a = (line, src)" by (cases a)
  show ?case by (simp add: a Cons.IH consumeLine_jsonErrors structured_errors_Cons)
qed

lemma consumeLines_stderrLines:
  "stderrLines (consumeLines P ls st) = stderrLines st @ nonempty_lines Stderr ls"
proof (induction ls arbitrary: st)
  case Nil
  show ?case by (simp add: nonempty_lines_def)
next
  case (Cons a ls)
  obtain line src where a: "a = (line, src)" by (cases a)
  show ?case using Cons.IH [of "consumeLine P line src st"]
    by (simp add: a consumeLine_stderrLines nonempty_lines_def)
qed

lemma consumeLines_stdoutLines:
  "stdoutLines (consumeLines P ls st) = stdoutLines st @ nonempty_lines Stdout ls"
proof (induction ls arbitrary: st)
  case Nil
  show ?case by (simp add: nonempty_lines_def)
next
  case (Cons a ls)
  obtain line src where a: "a = (line, src)" by (cases a)
  show ?case using Cons.IH [of "consumeLine P line src st"]
    by (simp add: a consumeLine_stdoutLines nonempty_lines_def)
qed

lemma final_state_fields:
  "sessionId (final_state P env input) =
     (case at_last (started_sessions P (lines env)) of
        None \<Rightarrow> input_sessionId input | Some t \<Rightarrow> Some t)"
  "jsonErrors (final_state P env input) = structured_errors P (lines env)"
  "stderrLines (final_state P env input) = nonempty_lines Stderr (lines env)"
  "stdoutLines (final_state P env input) = nonempty_lines Stdout (lines env)"
  by (simp_all add: final_state_def consumeLines_sessionId consumeLines_jsonErrors
        consumeLines_stderrLines consumeLines_stdoutLines split: option.split)

lemma details_priority:
  "details (final_state P env input) n =
     (if structured_errors P (lines env) \<noteq> [] then last (structured_errors P (lines env))
      else if nonempty_lines Stderr (lines env) \<noteq> [] then last (nonempty_lines Stderr (lines env))
      else if nonempty_lines Stdout (lines env) \<noteq> [] then last (nonempty_lines Stdout (lines env))
      else js ''Codex process exited with code '' @ String_number n)"
  by (simp add: details_def final_state_fields at_last_def)

lemma runCodexTurn_Close:
  "child env = Close code \<Longrightarrow>
     runCodexTurn P env input =
       (if exit_status code \<noteq> 0 \<and> candidate_reply env = [] then
          \<lparr>outcome = Inl (Error (details (final_state P env input) (exit_status code))),
           tempDirRemoved = True\<rparr>
        else
          \<lparr>outcome = Inr \<lparr>reply = (if candidate_reply env = []
                                      then js ''Codex completed but returned an empty message.''
                                      else candidate_reply env),
                             result_sessionId = sessionId (final_state P env input)\<rparr>,
           tempDirRemoved = True\<rparr>)"
  by (simp add: runCodexTurn_def Let_def)

lemma runCodexTurn_ChildError:
  "child env = ChildError e \<Longrightarrow>
     runCodexTurn P env input = \<lparr>outcome = Inl (SpawnFailure e), tempDirRemoved = False\<rparr>"
  by (simp add: runCodexTurn_def)

subsection \<open>Facts about the example data\<close>

lemma example_lines_trimmed:
  "trim (started_line ''S1'') = started_line ''S1''"
  "trim (started_line ''S2'') = started_line ''S2''"
  "trim (error_line ''quota exceeded'') = error_line ''quota exceeded''"
  "trim (js ''rate limited'') = js ''rate limited''"
  "trim (js '' not json '') = js ''not json''"
  "trim (js ''Hello'') = js ''Hello''"
  "trim (js '' partial answer '') = js ''partial answer''"
  "trim (js ''  '') = []"
  by (simp_all add: trim_def trimStart_def trimEnd_def is_ws_def started_line_def error_line_def
        quoted_def js_def)

lemma example_lines_nonempty:
  "started_line ''S1'' \<noteq> []" "started_line ''S2'' \<noteq> []"
  "error_line ''quota exceeded'' \<noteq> []" "js ''rate limited'' \<noteq> []"
  "js ''not json'' \<noteq> []" "js ''Hello'' \<noteq> []" "js ''partial answer'' \<noteq> []"
  by (simp_all add: started_line_def error_line_def quoted_def js_def)

lemma example_parse_values:
  "example_parse (started_line ''S1'') =
     Some (JObj [(js ''type'', JStr (js ''thread.started'')), (js ''thread_id'', JStr (js ''S1''))])"
  "example_parse (started_line ''S2'') =
     Some (JObj [(js ''type'', JStr (js ''thread.started'')), (js ''thread_id'', JStr (js ''S2''))])"
  "example_parse (error_line ''quota exceeded'') =
     Some (JObj [(js ''type'', JStr (js ''error'')), (js ''message'', JStr (js ''quota exceeded''))])"
  "example_parse (js ''rate limited'') = None"
  "example_parse (js ''not json'') = None"
  by (simp_all add: example_parse_def started_line_def error_line_def quoted_def js_def)

lemma example_keys_distinct:
  "js ''type'' \<noteq> js ''thread_id''" "js ''type'' \<noteq> js ''message''"
  "js ''thread_id'' \<noteq> js ''type''" "js ''message'' \<noteq> js ''type''"
  "js ''S1'' \<noteq> js ''S2''" "js ''S0'' \<noteq> js ''S2''"
  by (simp_all add: js_def)

lemma example_events:
  "started_session example_parse (started_line ''S1'') = Some (js ''S1'')"
  "started_session example_parse (started_line ''S2'') = Some (js ''S2'')"
  "started_session example_parse (error_line ''quota exceeded'') = None"
  "started_session example_parse (js ''rate limited'') = None"
  "started_session example_parse (js '' not json '') = None"
  "error_message example_parse (started_line ''S1'') = None"
  "error_message example_parse (started_line ''S2'') = None"
  "error_message example_parse (error_line ''quota exceeded'') = Some (js ''quota exceeded'')"
  "error_message example_parse (js ''rate limited'') = None"
  "error_message example_parse (js '' not json '') = None"
  by (simp_all add: started_session_def error_message_def parsed_event_def example_lines_trimmed
        example_lines_nonempty example_parse_values example_keys_distinct event_types_distinct
        event_types_distinct [symmetric])

lemma started_sessions_Nil: "started_sessions P [] = []"
  by (simp add: started_sessions_def List.map_filter_simps)

lemma structured_errors_Nil: "structured_errors P [] = []"
  by (simp add: structured_errors_def List.map_filter_simps)

lemmas example_eval =
  started_sessions_Nil started_sessions_Cons structured_errors_Nil structured_errors_Cons
  example_events example_lines_trimmed example_lines_nonempty nonempty_lines_def
  exit_status_def candidate_reply_def example_input_def

subsection \<open>The decision at the end of a turn\<close>

text \<open>
  C2 (amended): when the child process was started and has closed, \<open>runCodexTurn\<close>
  throws if and only if the exit status is not zero and the trimmed final message is
  empty, and the message of the error is then the last structured error message, else
  the last non-blank line of standard error, else the last non-blank line of standard
  output, else the text naming the exit code. When the child cannot be started the
  call throws as well, with the child's own error.
\<close>

theorem runCodexTurn_failure_rule:
  "(child env = Close code \<longrightarrow>
      (isl (outcome (runCodexTurn P env input)) \<longleftrightarrow>
         exit_status code \<noteq> 0 \<and> candidate_reply env = []) \<and>
      (exit_status code \<noteq> 0 \<and> candidate_reply env = [] \<longrightarrow>
         outcome (runCodexTurn P env input) = Inl (Error
           (if structured_errors P (lines env) \<noteq> []
              then last (structured_errors P (lines env))
            else if nonempty_lines Stderr (lines env) \<noteq> []
              then last (nonempty_lines Stderr (lines env))
            else if nonempty_lines Stdout (lines env) \<noteq> []
              then last (nonempty_lines Stdout (lines env))
            else js ''Codex process exited with code '' @ String_number (exit_status code))))) \<and>
   (child env = ChildError e \<longrightarrow>
      outcome (runCodexTurn P env input) = Inl (SpawnFailure e))"
proof (intro conjI impI)
  assume c: "child env = Close code"
  show "isl (outcome (runCodexTurn P env input)) \<longleftrightarrow>
         exit_status code \<noteq> 0 \<and> candidate_reply env = []"
    by (simp add: runCodexTurn_Close [OF c])
  assume "exit_status code \<noteq> 0 \<and> candidate_reply env = []"
  then show "outcome (runCodexTurn P env input) = Inl (Error
           (if structured_errors P (lines env) \<noteq> []
              then last (structured_errors P (lines env))
            else if nonempty_lines Stderr (lines env) \<noteq> []
              then last (nonempty_lines Stderr (lines env))
            else if nonempty_lines Stdout (lines env) \<noteq> []
              then last (nonempty_lines Stdout (lines env))
            else js ''Codex process exited with code '' @ String_number (exit_status code)))"
    by (simp add: runCodexTurn_Close [OF c] details_priority)
next
  assume "child env = ChildError e"
  then show "outcome (runCodexTurn P env input) = Inl (SpawnFailure e)"
    by (simp add: runCodexTurn_ChildError)
qed

lemma exit_message_3:
  "js ''Codex process exited with code '' @ String_number 3 = js ''Codex process exited with code 3''"
  by (simp add: String_number_def digits.simps js_def)

theorem runCodexTurn_failure_rule_witness:
  "child \<lparr>child = Close (Some 1),
          lines = [(started_line ''S1'', Stdout), (js ''rate limited'', Stderr)],
          finalMessage = Some (js ''  '')\<rparr> = Close (Some 1) \<and>
   exit_status (Some 1) \<noteq> 0 \<and>
   candidate_reply \<lparr>child = Close (Some 1),
          lines = [(started_line ''S1'', Stdout), (js ''rate limited'', Stderr)],
          finalMessage = Some (js ''  '')\<rparr> = [] \<and>
   outcome (runCodexTurn example_parse
      \<lparr>child = Close (Some 1),
       lines = [(started_line ''S1'', Stdout), (js ''rate limited'', Stderr)],
       finalMessage = Some (js ''  '')\<rparr> example_input) = Inl (Error (js ''rate limited'')) \<and>
   outcome (runCodexTurn example_parse
      \<lparr>child = Close (Some 3), lines = [], finalMessage = None\<rparr> example_input) =
     Inl (Error (js ''Codex process exited with code 3'')) \<and>
   outcome (runCodexTurn example_parse
      \<lparr>child = ChildError (js ''spawn codex EACCES''), lines = [], finalMessage = None\<rparr>
      example_input) = Inl (SpawnFailure (js ''spawn codex EACCES''))"
  using runCodexTurn_failure_rule [of "\<lparr>child = Close (Some 1),
       lines = [(started_line ''S1'', Stdout), (js ''rate limited'', Stderr)],
       finalMessage = Some (js ''  '')\<rparr>" "Some 1" example_parse example_input]
    runCodexTurn_failure_rule [of "\<lparr>child = Close (Some 3), lines = [],
       finalMessage = None\<rparr>" "Some 3" example_parse example_input]
    runCodexTurn_failure_rule [of "\<lparr>child = ChildError (js ''spawn codex EACCES''),
       lines = [], finalMessage = None\<rparr>" _ example_parse example_input
       "js ''spawn codex EACCES''"]
  by (simp add: example_eval exit_message_3)

text \<open>
  The child cannot be started (\<open>spawn codex ENOENT\<close>): there is no exit status, the call
  throws all the same, and the error is the child's, none of the four messages above.
\<close>

theorem runCodexTurn_spawn_failure_counterexample:
  "outcome (runCodexTurn example_parse
      \<lparr>child = ChildError (js ''spawn codex ENOENT''), lines = [], finalMessage = None\<rparr>
      example_input) = Inl (SpawnFailure (js ''spawn codex ENOENT''))"
  by (simp add: runCodexTurn_def)

text \<open>
  C3: when the exit status is zero, or the trimmed final message is not empty whatever
  the exit status, \<open>runCodexTurn\<close> returns a result whose reply is the trimmed final
  message, or the fixed placeholder when that is empty.
\<close>

theorem runCodexTurn_success_rule:
  assumes "child env = Close code"
    and "exit_status code = 0 \<or> candidate_reply env \<noteq> []"
  shows "outcome (runCodexTurn P env input) =
           Inr \<lparr>reply = (if candidate_reply env = []
                           then js ''Codex completed but returned an empty message.''
                           else candidate_reply env),
                result_sessionId = sessionId (final_state P env input)\<rparr> \<and>
         candidate_reply env = (case finalMessage env of None \<Rightarrow> [] | Some c \<Rightarrow> trim c)"
  using assms(2) by (auto simp: runCodexTurn_Close [OF assms(1)] candidate_reply_def)

theorem runCodexTurn_success_rule_witness:
  "reply (projr (outcome (runCodexTurn example_parse
      \<lparr>child = Close (Some 1), lines = [(js ''rate limited'', Stderr)],
       finalMessage = Some (js '' partial answer '')\<rparr> example_input))) = js ''partial answer'' \<and>
   reply (projr (outcome (runCodexTurn example_parse
      \<lparr>child = Close (Some 0), lines = [], finalMessage = None\<rparr> example_input))) =
     js ''Codex completed but returned an empty message.''"
  using runCodexTurn_success_rule [of "\<lparr>child = Close (Some 1),
       lines = [(js ''rate limited'', Stderr)],
       finalMessage = Some (js '' partial answer '')\<rparr>" "Some 1" example_parse example_input]
    runCodexTurn_success_rule [of "\<lparr>child = Close (Some 0), lines = [],
       finalMessage = None\<rparr>" "Some 0" example_parse example_input]
  by (simp add: example_eval)

text \<open>
  C4 (amended): the session id of a result is the \<open>thread_id\<close> of the last
  \<open>thread.started\<close> event of the turn; when the child reported no session it is the
  session id the turn was called with, which is absent only on a turn without a prior
  session.
\<close>

theorem runCodexTurn_session_id:
  assumes "outcome (runCodexTurn P env input) = Inr res"
  shows "result_sessionId res =
           (if started_sessions P (lines env) = [] then input_sessionId input
            else Some (last (started_sessions P (lines env))))"
proof (cases "child env")
  case (ChildError e)
  with assms show ?thesis by (simp add: runCodexTurn_def)
next
  case (Close code)
  from assms have "result_sessionId res = sessionId (final_state P env input)"
    by (auto simp: runCodexTurn_Close [OF Close] split: if_splits)
  then show ?thesis by (simp add: final_state_fields at_last_def)
qed

theorem runCodexTurn_session_id_witness:
  "outcome (runCodexTurn example_parse
      \<lparr>child = Close (Some 0),
       lines = [(started_line ''S1'', Stdout), (js '' not json '', Stdout),
                (started_line ''S2'', Stdout)],
       finalMessage = Some (js ''Hello'')\<rparr> example_input) =
     Inr \<lparr>reply = js ''Hello'', result_sessionId = Some (js ''S2'')\<rparr>"
proof -
  let ?env = "\<lparr>child = Close (Some 0),
       lines = [(started_line ''S1'', Stdout), (js '' not json '', Stdout),
                (started_line ''S2'', Stdout)],
       finalMessage = Some (js ''Hello'')\<rparr>"
  have out: "outcome (runCodexTurn example_parse ?env example_input) =
     Inr \<lparr>reply = js ''Hello'',
          result_sessionId = sessionId (final_state example_parse ?env example_input)\<rparr>"
    by (simp add: runCodexTurn_Close [of ?env "Some 0"] example_eval)
  from runCodexTurn_session_id [OF out]
  have "sessionId (final_state example_parse ?env example_input) = Some (js ''S2'')"
    by (simp add: example_eval)
  with out show ?thesis by simp
qed

text \<open>
  A turn called with the prior session \<open>S0\<close> whose child reports no session: the result
  carries \<open>S0\<close>.
\<close>

theorem runCodexTurn_prior_session_counterexample:
  "started_sessions example_parse [] = [] \<and>
   outcome (runCodexTurn example_parse
      \<lparr>child = Close (Some 0), lines = [], finalMessage = Some (js ''Hello'')\<rparr>
      \<lparr>input_prompt = js ''hi'', input_sessionId = Some (js ''S0''), input_imagePaths = None\<rparr>) =
     Inr \<lparr>reply = js ''Hello'', result_sessionId = Some (js ''S0'')\<rparr>"
  by (simp add: runCodexTurn_def final_state_def example_eval Let_def)

subsection \<open>The scratch directory\<close>

lemma tempDirRemoved_iff: "tempDirRemoved (runCodexTurn P env input) \<longleftrightarrow> (\<exists>code. child env = Close code)"
  by (cases "child env") (simp_all add: runCodexTurn_ChildError runCodexTurn_Close)

text \<open>
  C5: the scratch directory is removed before the call ends on every path. This fails
  when the child cannot be started: the rejected promise of the exit code leaves
  \<open>runCodexTurn\<close> before \<open>fs.rm\<close> is reached, and no \<open>finally\<close> removes the directory.
\<close>

theorem runCodexTurn_spawn_failure_keeps_tempDir:
  "\<not> tempDirRemoved (runCodexTurn example_parse
      \<lparr>child = ChildError (js ''spawn codex ENOENT''), lines = [], finalMessage = None\<rparr>
      example_input)"
  by (simp add: runCodexTurn_def)

subsection \<open>Malformed lines\<close>

lemma malformed_no_event:
  "malformed P line \<Longrightarrow> started_session P line = None \<and> error_message P line = None"
  by (simp add: malformed_def started_session_def error_message_def parsed_event_def)

lemma started_sessions_without_malformed:
  "started_sessions P (without_malformed P ls) = started_sessions P ls"
proof (induction ls)
  case Nil
  show ?case by (simp add: without_malformed_def)
next
  case (Cons a ls)
  obtain line src where a: "a = (line, src)" by (cases a)
  from Cons.IH show ?case
    by (cases "malformed P line")
       (simp_all add: a without_malformed_def started_sessions_Cons malformed_no_event)
qed

lemma structured_errors_without_malformed:
  "structured_errors P (without_malformed P ls) = structured_errors P ls"
proof (induction ls)
  case Nil
  show ?case by (simp add: without_malformed_def)
next
  case (Cons a ls)
  obtain line src where a: "a = (line, src)" by (cases a)
  from Cons.IH show ?case
    by (cases "malformed P line")
       (simp_all add: a without_malformed_def structured_errors_Cons malformed_no_event)
qed

text \<open>
  C8: taking the malformed lines out of the output of the child changes neither the
  session id computed from the lines, nor the captured structured error messages, nor
  whether the turn fails, nor the result of a turn that succeeds.
\<close>

theorem malformed_lines_ignored:
  "sessionId (final_state P (env\<lparr>lines := without_malformed P (lines env)\<rparr>) input) =
     sessionId (final_state P env input) \<and>
   jsonErrors (final_state P (env\<lparr>lines := without_malformed P (lines env)\<rparr>) input) =
     jsonErrors (final_state P env input) \<and>
   (isl (outcome (runCodexTurn P (env\<lparr>lines := without_malformed P (lines env)\<rparr>) input)) \<longleftrightarrow>
      isl (outcome (runCodexTurn P env input))) \<and>
   (\<forall>res. outcome (runCodexTurn P (env\<lparr>lines := without_malformed P (lines env)\<rparr>) input) = Inr res
      \<longleftrightarrow> outcome (runCodexTurn P env input) = Inr res)"
proof -
  let ?env' = "env\<lparr>lines := without_malformed P (lines env)\<rparr>"
  have sid: "sessionId (final_state P ?env' input) = sessionId (final_state P env input)"
    by (simp add: final_state_fields started_sessions_without_malformed)
  have errs: "jsonErrors (final_state P ?env' input) = jsonErrors (final_state P env input)"
    by (simp add: final_state_fields structured_errors_without_malformed)
  have rep: "candidate_reply ?env' = candidate_reply env" by (simp add: candidate_reply_def)
  have fails: "isl (outcome (runCodexTurn P ?env' input)) = isl (outcome (runCodexTurn P env input))"
  proof (cases "child env")
    case (ChildError e)
    then show ?thesis by (simp add: runCodexTurn_def)
  next
    case (Close code)
    then have c': "child ?env' = Close code" by simp
    show ?thesis by (simp add: runCodexTurn_Close [OF Close] runCodexTurn_Close [OF c'] rep)
  qed
  have result: "outcome (runCodexTurn P ?env' input) = Inr res \<longleftrightarrow>
        outcome (runCodexTurn P env input) = Inr res" for res
  proof (cases "child env")
    case (ChildError e)
    then show ?thesis by (simp add: runCodexTurn_def)
  next
    case (Close code)
    then have c': "child ?env' = Close code" by simp
    show ?thesis by (simp add: runCodexTurn_Close [OF Close] runCodexTurn_Close [OF c'] rep sid)
  qed
  from sid errs fails result show ?thesis by blast
qed

theorem malformed_lines_ignored_witness:
  "without_malformed example_parse
     [(started_line ''S1'', Stdout), (js '' not json '', Stdout),
      (error_line ''quota exceeded'', Stdout), (js ''rate limited'', Stderr)] =
     [(started_line ''S1'', Stdout), (error_line ''quota exceeded'', Stdout)] \<and>
   sessionId (final_state example_parse
     \<lparr>child = Close (Some 1),
      lines = [(started_line ''S1'', Stdout), (error_line ''quota exceeded'', Stdout)],
      finalMessage = None\<rparr> example_input) =
   sessionId (final_state example_parse
     \<lparr>child = Close (Some 1),
      lines = [(started_line ''S1'', Stdout), (js '' not json '', Stdout),
               (error_line ''quota exceeded'', Stdout), (js ''rate limited'', Stderr)],
      finalMessage = None\<rparr> example_input) \<and>
   isl (outcome (runCodexTurn example_parse
     \<lparr>child = Close (Some 1),
      lines = [(started_line ''S1'', Stdout), (error_line ''quota exceeded'', Stdout)],
      finalMessage = None\<rparr> example_input)) =
   isl (outcome (runCodexTurn example_parse
     \<lparr>child = Close (Some 1),
      lines = [(started_line ''S1'', Stdout), (js '' not json '', Stdout),
               (error_line ''quota exceeded'', Stdout), (js ''rate limited'', Stderr)],
      finalMessage = None\<rparr> example_input))"
proof -
  have w: "without_malformed example_parse
     [(started_line ''S1'', Stdout), (js '' not json '', Stdout),
      (error_line ''quota exceeded'', Stdout), (js ''rate limited'', Stderr)] =
     [(started_line ''S1'', Stdout), (error_line ''quota exceeded'', Stdout)]"
    by (simp add: without_malformed_def malformed_def example_lines_trimmed example_parse_values)
  show ?thesis
    using malformed_lines_ignored [of example_parse "\<lparr>child = Close (Some 1),
      lines = [(started_line ''S1'', Stdout), (js '' not json '', Stdout),
               (error_line ''quota exceeded'', Stdout), (js ''rate limited'', Stderr)],
      finalMessage = None\<rparr>" example_input]
    by (simp add: w)
qed

text \<open>
  The text of the error of a failed turn is not among these: without structured error
  messages and lines on standard error it is the last line of standard output, which
  can be a malformed one.
\<close>

lemma malformed_line_in_details:
  "outcome (runCodexTurn example_parse
     \<lparr>child = Close (Some 1),
      lines = [(started_line ''S1'', Stdout), (js '' not json '', Stdout)],
      finalMessage = None\<rparr> example_input) = Inl (Error (js ''not json'')) \<and>
   outcome (runCodexTurn example_parse
     \<lparr>child = Close (Some 1), lines = [(started_line ''S1'', Stdout)],
      finalMessage = None\<rparr> example_input) = Inl (Error (started_line ''S1''))"
  by (simp add: runCodexTurn_Close [of _ "Some 1"] details_priority example_eval)

section \<open>Properties of the session registry\<close>

lemmas registry_steps = call_def advance_def proceed_def persistQueued_write_def set_pc_def
  loadOnce_start_def loadOnce_finish_def Let_def

lemma call_length: "length (reg_calls (call r s)) = Suc (length (reg_calls s))"
  by (simp add: call_def loadOnce_start_def)

lemma advance_length: "length (reg_calls (advance c io s)) = length (reg_calls s)"
  by (simp add: registry_steps
        split: pc.split sessions_file.split request.split settled.split write_outcome.split)

lemma alone_length: "length (reg_calls (alone r io s)) = Suc (length (reg_calls s))"
  by (simp add: alone_def Let_def advance_length call_length)


















subsection \<open>An empty session id\<close>


subsection \<open>Calls that overlap the first load\<close>

text \<open>
  \<open>loadOnce\<close> sets \<open>loaded\<close> before it reads the file, so between the first call of a
  process and the end of its read the store answers from the empty map, and what the
  read brings is set over what calls have done in the meantime. The runs below are on
  a new store whose file holds a session \<open>"old"\<close> for \<open>42\<close>; call 0 is the first call,
  a \<open>get(1)\<close>, and call 1 is made while call 0 awaits \<open>fs.readFile\<close>.

  \<open>get(42)\<close> as call 1 returns no mapping.
\<close>

lemma get_overlapping_first_load:
  "call_result
     (advance 1 WriteCompletes (call (GetCall 42) (call (GetCall 1) (new_registry old_file)))) 1 =
     Some (Returned None)"
  by (simp add: call_result_def registry_steps new_registry_def new_SessionStore_def)


text \<open>
  \<open>clear(42)\<close> as call 1 returns with its write completed, but the load of call 0 has
  restored the session before the write: a \<open>get(42)\<close> right after the return of
  \<open>clear\<close> returns \<open>"old"\<close>.
\<close>

lemma clear_overlapping_first_load:
  "call_result clear_during_load 1 = Some (Returned None) \<and>
   returned_by (GetCall 42) WriteCompletes clear_during_load = Some (Returned (Some (js ''old'')))"
  by (simp add: clear_during_load_def returned_by_def alone_def call_result_def registry_steps
        new_registry_def new_SessionStore_def old_file_def load_entries_def js_def)

subsection \<open>Where the round trip fails\<close>


section \<open>Properties of the per-conversation queue\<close>

subsection \<open>The steps, field by field\<close>

lemma set_phase_fields [simp]:
  "length (cells (set_phase i p s)) = length (cells s)"
  "inFlightByChat (set_phase i p s) = inFlightByChat s"
  "trace (set_phase i p s) = trace s"
  by (simp_all add: set_phase_def)

lemma set_phase_cells [simp]:
  assumes "i < length (cells s)"
  shows "ph (set_phase i p s) j = (if j = i then p else ph s j)"
    and "ch (set_phase i p s) j = ch s j"
    and "pv (set_phase i p s) j = pv s j"
  using assms by (simp_all add: set_phase_def nth_list_update)

lemma cleanup_fields [simp]:
  "cells (cleanup i s) = cells s" "trace (cleanup i s) = trace s"
  "inFlightByChat (cleanup i s) =
     (if inFlightByChat s (ch s i) = Some i then (inFlightByChat s)(ch s i := None)
      else inFlightByChat s)"
  by (simp_all add: cleanup_def Let_def)

lemma enqueue_fields [simp]:
  "length (cells (enqueueByChat k s)) = Suc (length (cells s))"
  "inFlightByChat (enqueueByChat k s) = (inFlightByChat s)(k \<mapsto> length (cells s))"
  "trace (enqueueByChat k s) = trace s"
  "cells (enqueueByChat k s) ! length (cells s) =
     \<lparr>cell_chat = k, previous = inFlightByChat s k, cell_phase = Waiting\<rparr>"
  by (simp_all add: enqueueByChat_def Let_def)

lemma enqueue_old [simp]:
  "j < length (cells s) \<Longrightarrow> cells (enqueueByChat k s) ! j = cells s ! j"
  by (simp add: enqueueByChat_def Let_def nth_append)

lemma enqueue_cells:
  "cells (enqueueByChat k s) =
     cells s @ [\<lparr>cell_chat = k, previous = inFlightByChat s k, cell_phase = Waiting\<rparr>]"
  by (simp add: enqueueByChat_def Let_def)

subsection \<open>The expected trace\<close>

lemma concat_map_cong_upt:
  assumes "\<And>j. j < n \<Longrightarrow> g j = f j"
  shows "concat (map g [0..<n]) = concat (map f [0..<n])"
proof -
  have "map g [0..<n] = map f [0..<n]" using assms by (intro map_cong) auto
  then show ?thesis by (rule arg_cong)
qed

lemma expected_snoc:
  "expected k (cs @ [c]) =
     expected k cs @ (if cell_chat c = k then events_of k (length cs) (cell_phase c) else [])"
proof -
  have "concat (map (\<lambda>i. if cell_chat ((cs @ [c]) ! i) = k
                 then events_of k i (cell_phase ((cs @ [c]) ! i)) else []) [0..<length cs]) =
        concat (map (\<lambda>i. if cell_chat (cs ! i) = k
                 then events_of k i (cell_phase (cs ! i)) else []) [0..<length cs])"
    by (rule concat_map_cong_upt) (simp add: nth_append)
  then show ?thesis by (simp add: expected_def)
qed

lemma concat_map_grow:
  assumes "i < n"
    and "\<And>j. j < n \<Longrightarrow> j \<noteq> i \<Longrightarrow> g j = f j"
    and "\<And>j. i < j \<Longrightarrow> j < n \<Longrightarrow> f j = []"
    and "g i = f i @ es"
  shows "concat (map g [0..<n]) = concat (map f [0..<n]) @ es"
proof -
  have split: "[0..<n] = [0..<i] @ [i] @ [Suc i..<n]"
    using assms(1) by (metis append_Cons append_Nil less_imp_le_nat upt_add_eq_append
        upt_conv_Cons le_add_diff_inverse zero_le add_0)
  have a: "map g [0..<i] = map f [0..<i]" using assms(1,2) by (intro map_cong) auto
  have b: "concat (map g [Suc i..<n]) = []" "concat (map f [Suc i..<n]) = []"
    using assms(2,3) by auto
  show ?thesis by (simp add: split a b assms(4) del: upt_Suc)
qed


lemma expected_grow:
  assumes i: "i < length (cells s)"
    and later: "\<And>j. i < j \<Longrightarrow> j < length (cells s) \<Longrightarrow> ch s j = ch s i \<Longrightarrow> ph s j = Waiting"
    and ev: "events_of (ch s i) i p = events_of (ch s i) i (ph s i) @ es"
  shows "expected k (cells (set_phase i p s)) =
           expected k (cells s) @ (if ch s i = k then es else [])"
proof (cases "ch s i = k")
  case True
  show ?thesis unfolding expected_def set_phase_fields
  proof (subst concat_map_grow [where i = i and es = es and
        f = "\<lambda>i. if ch s i = k then events_of k i (ph s i) else []"])
    show "i < length (cells s)" by (rule i)
  next
    fix j assume "j < length (cells s)" "j \<noteq> i"
    then show "(if ch (set_phase i p s) j = k then events_of k j (ph (set_phase i p s) j) else []) =
               (if ch s j = k then events_of k j (ph s j) else [])"
      using i by simp
  next
    fix j assume "i < j" "j < length (cells s)"
    then show "(if ch s j = k then events_of k j (ph s j) else []) = []"
      using later [of j] True by auto
  next
    show "(if ch (set_phase i p s) i = k then events_of k i (ph (set_phase i p s) i) else []) =
          (if ch s i = k then events_of k i (ph s i) else []) @ es"
      using i True ev by simp
  next
    show "concat (map (\<lambda>i. if ch s i = k then events_of k i (ph s i) else []) [0..<length (cells s)]) @ es =
          concat (map (\<lambda>i. if ch s i = k then events_of k i (ph s i) else []) [0..<length (cells s)]) @
          (if ch s i = k then es else [])"
      using True by simp
  qed
next
  case False
  have "concat (map (\<lambda>j. if ch (set_phase i p s) j = k
                            then events_of k j (ph (set_phase i p s) j) else [])
          [0..<length (cells s)]) =
        concat (map (\<lambda>j. if ch s j = k then events_of k j (ph s j) else []) [0..<length (cells s)])"
    using i False by (intro concat_map_cong_upt) auto
  then show ?thesis using False by (simp add: expected_def)
qed

lemma chat_trace_snoc:
  "chat_trace k (tr @ [e]) = chat_trace k tr @ (if event_chat e = k then [e] else [])"
  by (simp add: chat_trace_def)

subsection \<open>Every step keeps the invariants\<close>

lemma inv_init: "queue_inv init_state"
  by (simp add: queue_inv_def inv_map_def inv_prev_def inv_order_def inv_trace_def init_state_def
        chat_trace_def expected_def)

lemma inv_enqueue:
  assumes "queue_inv s"
  shows "queue_inv (enqueueByChat k s)"
proof -
  let ?s' = "enqueueByChat k s"
  let ?n = "length (cells s)"
  from assms have m: "inv_map s" and p: "inv_prev s" and ord: "inv_order s" and t: "inv_trace s"
    by (simp_all add: queue_inv_def)
  have new: "ch ?s' ?n = k" "ph ?s' ?n = Waiting" "pv ?s' ?n = inFlightByChat s k" by simp_all
  have "inv_map ?s'"
    unfolding inv_map_def
  proof (rule conjI; intro allI; rule impI)
    fix k' i assume a: "inFlightByChat ?s' k' = Some i"
    show "i < length (cells ?s') \<and> ch ?s' i = k' \<and> \<not> cleaned (ph ?s' i) \<and>
          (\<forall>j. i < j \<and> j < length (cells ?s') \<longrightarrow> ch ?s' j \<noteq> k')"
    proof (cases "k' = k")
      case True
      with a have "i = ?n" by simp
      with True show ?thesis by simp
    next
      case False
      with a have "inFlightByChat s k' = Some i" by simp
      with m have old: "i < ?n" "ch s i = k'" "\<not> cleaned (ph s i)"
        "\<forall>j. i < j \<and> j < ?n \<longrightarrow> ch s j \<noteq> k'" unfolding inv_map_def by blast+
      with False show ?thesis by (auto simp: less_Suc_eq)
    qed
  next
    fix k' j assume a: "inFlightByChat ?s' k' = None \<and> j < length (cells ?s') \<and> ch ?s' j = k'"
    then have k': "k' \<noteq> k" by auto
    with a have "j < ?n" by (auto simp: less_Suc_eq)
    with a k' m show "cleaned (ph ?s' j)" unfolding inv_map_def by auto
  qed
  moreover have "inv_prev ?s'"
    unfolding inv_prev_def
  proof (rule conjI; intro allI; rule impI)
    fix j i assume a: "j < length (cells ?s') \<and> pv ?s' j = Some i"
    show "i < j \<and> ch ?s' i = ch ?s' j \<and> (\<forall>m. i < m \<and> m < j \<longrightarrow> ch ?s' m \<noteq> ch ?s' j)"
    proof (cases "j < ?n")
      case True
      with a have "pv s j = Some i" by simp
      with p True have "i < j" "ch s i = ch s j" "\<forall>m. i < m \<and> m < j \<longrightarrow> ch s m \<noteq> ch s j"
        unfolding inv_prev_def by blast+
      with True show ?thesis by auto
    next
      case False
      with a have j: "j = ?n" by simp
      with a have "inFlightByChat s k = Some i" by simp
      with m have "i < ?n" "ch s i = k" "\<forall>m. i < m \<and> m < ?n \<longrightarrow> ch s m \<noteq> k"
        unfolding inv_map_def by blast+
      with j show ?thesis by auto
    qed
  next
    fix j i assume a: "j < length (cells ?s') \<and> pv ?s' j = None \<and> i < j \<and> ch ?s' i = ch ?s' j"
    show "cleaned (ph ?s' i)"
    proof (cases "j < ?n")
      case True
      with a p show ?thesis unfolding inv_prev_def by auto
    next
      case False
      with a have j: "j = ?n" by simp
      with a have "inFlightByChat s k = None" "i < ?n" "ch s i = k" by auto
      with m show ?thesis unfolding inv_map_def by auto
    qed
  qed
  moreover have "inv_order ?s'"
    unfolding inv_order_def
  proof (intro allI; rule impI)
    fix j i assume a: "j < length (cells ?s') \<and> ph ?s' j \<noteq> Waiting \<and> i < j \<and> ch ?s' i = ch ?s' j"
    then have "j < ?n" by (cases "j = ?n") (auto simp: less_Suc_eq)
    with a ord show "cleaned (ph ?s' i)" unfolding inv_order_def by auto
  qed
  moreover have "inv_trace ?s'"
    using t unfolding inv_trace_def by (simp add: enqueue_cells expected_snoc)
  ultimately show ?thesis by (simp add: queue_inv_def)
qed

lemma expected_same:
  assumes "i < length (cells s)"
    and "events_of (ch s i) i p = events_of (ch s i) i (ph s i)"
  shows "expected k (cells (set_phase i p s)) = expected k (cells s)"
  unfolding expected_def set_phase_fields
proof (rule concat_map_cong_upt)
  fix j assume "j < length (cells s)"
  with assms show "(if ch (set_phase i p s) j = k then events_of k j (ph (set_phase i p s) j) else []) =
        (if ch s j = k then events_of k j (ph s j) else [])"
    by auto
qed

text \<open>
  One cell moves on to phase \<open>p\<close>, producing the events \<open>es\<close>; when the callback has
  run by then, the entry of the cell in \<open>inFlightByChat\<close> is gone.
\<close>

lemma inv_advance:
  assumes queue_inv: "queue_inv s" and i: "i < length (cells s)"
    and cells': "cells s' = cells (set_phase i p s)"
    and map': "inFlightByChat s' =
        (if inFlightByChat s (ch s i) = Some i \<and> cleaned p
         then (inFlightByChat s)(ch s i := None) else inFlightByChat s)"
    and trace': "trace s' = trace s @ es"
    and ev: "events_of (ch s i) i p = events_of (ch s i) i (ph s i) @ es"
    and es: "\<forall>e \<in> set es. event_chat e = ch s i"
    and mono: "cleaned (ph s i) \<Longrightarrow> cleaned p"
    and after: "cleaned p \<Longrightarrow> ph s i \<noteq> Waiting"
    and start: "ph s i = Waiting \<Longrightarrow> p \<noteq> Waiting \<Longrightarrow>
        \<forall>i'<i. ch s i' = ch s i \<longrightarrow> cleaned (ph s i')"
    and fresh: "es \<noteq> [] \<Longrightarrow> \<not> cleaned (ph s i)"
  shows "queue_inv s'"
proof -
  let ?n = "length (cells s)"
  from queue_inv have m: "inv_map s" and pr: "inv_prev s" and ord: "inv_order s" and t: "inv_trace s"
    by (simp_all add: queue_inv_def)
  have len: "length (cells s') = ?n" by (simp add: cells')
  have ch': "ch s' j = ch s j" and pv': "pv s' j = pv s j"
    and ph': "ph s' j = (if j = i then p else ph s j)" for j
    using i by (simp_all add: cells')
  have keep: "cleaned (ph s j) \<Longrightarrow> cleaned (ph s' j)" for j
    using mono by (auto simp: ph')
  have sub: "inFlightByChat s' k = Some c \<Longrightarrow> inFlightByChat s k = Some c" for k c
    by (simp add: map' split: if_splits)
  have "inv_map s'"
    unfolding inv_map_def
  proof (rule conjI; intro allI; rule impI)
    fix k c assume a: "inFlightByChat s' k = Some c"
    from sub [OF a] m have old: "c < ?n" "ch s c = k" "\<not> cleaned (ph s c)"
      "\<forall>j. c < j \<and> j < ?n \<longrightarrow> ch s j \<noteq> k" unfolding inv_map_def by blast+
    have "\<not> cleaned (ph s' c)"
    proof (cases "c = i")
      case True
      with a old(2) sub [OF a] show ?thesis by (auto simp: map' ph' split: if_splits)
    next
      case False
      with old(3) show ?thesis by (simp add: ph')
    qed
    with old show "c < length (cells s') \<and> ch s' c = k \<and> \<not> cleaned (ph s' c) \<and>
        (\<forall>j. c < j \<and> j < length (cells s') \<longrightarrow> ch s' j \<noteq> k)"
      by (simp add: len ch')
  next
    fix k j assume a: "inFlightByChat s' k = None \<and> j < length (cells s') \<and> ch s' j = k"
    then have j: "j < ?n" "ch s j = k" by (simp_all add: len ch')
    show "cleaned (ph s' j)"
    proof (cases "inFlightByChat s k")
      case None
      with m j have "cleaned (ph s j)" unfolding inv_map_def by blast
      then show ?thesis by (rule keep)
    next
      case (Some c)
      with a have del: "inFlightByChat s (ch s i) = Some i" "cleaned p" "k = ch s i"
        by (auto simp: map' split: if_splits)
      from del(1) m have last: "\<forall>j. i < j \<and> j < ?n \<longrightarrow> ch s j \<noteq> ch s i"
        unfolding inv_map_def by blast
      with j del(3) have "j \<le> i" by (metis not_le_imp_less)
      show ?thesis
      proof (cases "j = i")
        case True
        with del(2) show ?thesis by (simp add: ph')
      next
        case False
        with \<open>j \<le> i\<close> have "j < i" by simp
        moreover from after [OF del(2)] have "ph s i \<noteq> Waiting" .
        ultimately have "cleaned (ph s j)"
          using ord i j(2) del(3) unfolding inv_order_def by blast
        then show ?thesis by (rule keep)
      qed
    qed
  qed
  moreover have "inv_prev s'"
    unfolding inv_prev_def
  proof (rule conjI; intro allI; rule impI)
    fix j c assume "j < length (cells s') \<and> pv s' j = Some c"
    with pr show "c < j \<and> ch s' c = ch s' j \<and> (\<forall>m. c < m \<and> m < j \<longrightarrow> ch s' m \<noteq> ch s' j)"
      unfolding inv_prev_def by (simp add: len ch' pv')
  next
    fix j c assume "j < length (cells s') \<and> pv s' j = None \<and> c < j \<and> ch s' c = ch s' j"
    with pr have "cleaned (ph s c)" unfolding inv_prev_def by (simp add: len ch' pv') blast
    then show "cleaned (ph s' c)" by (rule keep)
  qed
  moreover have "inv_order s'"
    unfolding inv_order_def
  proof (intro allI; rule impI)
    fix j c assume a: "j < length (cells s') \<and> ph s' j \<noteq> Waiting \<and> c < j \<and> ch s' c = ch s' j"
    then have j: "j < ?n" "c < j" "ch s c = ch s j" by (simp_all add: len ch')
    have "cleaned (ph s c)"
    proof (cases "ph s j = Waiting")
      case True
      with a have "j = i" "p \<noteq> Waiting" by (auto simp: ph' split: if_splits)
      with start True j show ?thesis by simp
    next
      case False
      with ord j show ?thesis unfolding inv_order_def by blast
    qed
    then show "cleaned (ph s' c)" by (rule keep)
  qed
  moreover have "inv_trace s'"
    unfolding inv_trace_def
  proof
    fix k
    have tr: "chat_trace k (trace s') = expected k (cells s) @ (if ch s i = k then es else [])"
      using t es unfolding inv_trace_def by (auto simp: trace' chat_trace_def)
    have "expected k (cells s') = expected k (cells s) @ (if ch s i = k then es else [])"
    proof (cases "es = []")
      case True
      with ev have "events_of (ch s i) i p = events_of (ch s i) i (ph s i)" by simp
      from expected_same [OF i this] True show ?thesis unfolding cells' by simp
    next
      case False
      from fresh [OF False] ord i
      have "\<And>j. i < j \<Longrightarrow> j < ?n \<Longrightarrow> ch s j = ch s i \<Longrightarrow> ph s j = Waiting"
        unfolding inv_order_def by metis
      from expected_grow [OF i this ev] show ?thesis unfolding cells' .
    qed
    with tr show "chat_trace k (trace s') = expected k (cells s')" by (simp only:)
  qed
  ultimately show ?thesis by (simp add: queue_inv_def)
qed

lemma inv_step:
  assumes "queue_inv s" and "step a s = Some s'"
  shows "queue_inv s'"
proof (cases a)
  case (Enqueue k)
  with assms show ?thesis by (auto intro: inv_enqueue)
next
  case (Start i)
  with assms(2) have g: "i < length (cells s)" "ph s i = Waiting"
    "case pv s i of None \<Rightarrow> True | Some p \<Rightarrow> p < length (cells s) \<and> ph s p = Done"
    and s': "s' = (set_phase i Running s)\<lparr>trace := trace s @ [Started (ch s i) i]\<rparr>"
    by (auto split: if_splits)
  from assms(1) have m: "inv_map s" and pr: "inv_prev s" and ord: "inv_order s"
    by (simp_all add: queue_inv_def)
  have before: "\<forall>i'<i. ch s i' = ch s i \<longrightarrow> cleaned (ph s i')"
  proof (cases "pv s i")
    case None
    with pr g(1) show ?thesis unfolding inv_prev_def by blast
  next
    case (Some p)
    with g(3) have p: "p < length (cells s)" "ph s p = Done" by simp_all
    from Some pr g(1) have pi: "p < i" "ch s p = ch s i" "\<forall>m. p < m \<and> m < i \<longrightarrow> ch s m \<noteq> ch s i"
      unfolding inv_prev_def by blast+
    show ?thesis
    proof (intro allI impI)
      fix i' assume a: "i' < i" "ch s i' = ch s i"
      with pi(3) have "i' \<le> p" by (metis not_le_imp_less)
      show "cleaned (ph s i')"
      proof (cases "i' = p")
        case True
        with p(2) show ?thesis by simp
      next
        case False
        with \<open>i' \<le> p\<close> have "i' < p" by simp
        with ord p a(2) pi(2) show ?thesis unfolding inv_order_def by (metis phase.distinct(7))
      qed
    qed
  qed
  show ?thesis
    by (rule inv_advance [OF assms(1) g(1), where p = Running and es = "[Started (ch s i) i]"])
       (simp_all add: s' g(2) before)
next
  case (Finish i ok)
  with assms(2) have g: "i < length (cells s)" "ph s i = Running"
    and s': "s' = (set_phase i (Settled ok) s)\<lparr>trace := trace s @ [Ended (ch s i) i]\<rparr>"
    by (auto split: if_splits)
  show ?thesis
    by (rule inv_advance [OF assms(1) g(1), where p = "Settled ok" and es = "[Ended (ch s i) i]"])
       (simp_all add: s' g(2))
next
  case (Cleanup i)
  with assms(2) have i: "i < length (cells s)" and st: "is_settled (ph s i)"
    and s': "s' = set_phase i Cleaned (cleanup i s)"
    by (auto split: if_splits)
  from st obtain ok where "ph s i = Settled ok" by (cases "ph s i") simp_all
  with i have g: "i < length (cells s)" "ph s i = Settled ok" by simp_all
  show ?thesis
    by (rule inv_advance [OF assms(1) g(1), where p = Cleaned and es = "[]"])
       (simp_all add: s' g set_phase_def)
next
  case (Resolve i)
  with assms(2) have g: "i < length (cells s)" "ph s i = Cleaned"
    and s': "s' = set_phase i Done s"
    by (auto split: if_splits)
  from assms(1) have m: "inv_map s" by (simp add: queue_inv_def)
  have "inFlightByChat s (ch s i) \<noteq> Some i"
    using m g(2) unfolding inv_map_def by fastforce
  then show ?thesis
    by (intro inv_advance [OF assms(1) g(1), where p = Done and es = "[]"])
       (simp_all add: s' g)
qed

lemma inv_run:
  assumes "queue_inv s" and "run as s = Some s'"
  shows "queue_inv s'"
  using assms
proof (induction as arbitrary: s)
  case Nil
  then show ?case by simp
next
  case (Cons a as)
  then obtain s1 where "step a s = Some s1" "run as s1 = Some s'"
    by (auto split: option.splits)
  with Cons.IH inv_step [OF Cons.prems(1)] show ?case by blast
qed


subsection \<open>The cells are the submissions\<close>

lemma set_phase_chats: "map cell_chat (cells (set_phase i p s)) = map cell_chat (cells s)"
proof (cases "i < length (cells s)")
  case True
  then show ?thesis by (simp add: set_phase_def map_update list_update_same_conv)
next
  case False
  then have "(cells s)[i := (cells s ! i)\<lparr>cell_phase := p\<rparr>] = cells s"
    by (intro list_update_beyond) simp
  then show ?thesis by (simp add: set_phase_def)
qed

lemma step_chats:
  assumes "step a s = Some s'"
  shows "map cell_chat (cells s') = map cell_chat (cells s) @ submissions [a]"
  using assms
  by (cases a) (auto simp: set_phase_chats enqueue_cells split: if_splits)

lemma submissions_Cons: "submissions (a # as) = submissions [a] @ submissions as"
  by (cases a) simp_all

lemma run_chats:
  assumes "run as s = Some s'"
  shows "map cell_chat (cells s') = map cell_chat (cells s) @ submissions as"
  using assms
proof (induction as arbitrary: s)
  case Nil
  then show ?case by simp
next
  case (Cons a as)
  then obtain s1 where s1: "step a s = Some s1" "run as s1 = Some s'"
    by (auto split: option.splits)
  from Cons.IH [OF s1(2)] step_chats [OF s1(1)] show ?case
    by (subst submissions_Cons) simp
qed

subsection \<open>The trace of a chat against its serial schedule\<close>







subsection \<open>When nothing is left to do\<close>



lemma one_task_at_a_time:
  assumes "run as init_state = Some s" and "i < j" and "j < length (cells s)"
    and "ch s i = ch s j" and "ph s j = Running"
  shows "ph s i \<noteq> Running"
proof -
  from inv_run [OF inv_init assms(1)] have "inv_order s" by (simp add: queue_inv_def)
  with assms(2-5) have "cleaned (ph s i)" unfolding inv_order_def by (metis phase.distinct(1))
  then show ?thesis by auto
qed



subsection \<open>Every run comes to an end\<close>

lemma progress_set_phase:
  assumes "i < length (cells s)" and "phase_rank p = Suc (phase_rank (ph s i))"
  shows "progress (set_phase i p s) = Suc (progress s)"
proof -
  have "phase_rank (ph s i) \<in> set (map (\<lambda>c. phase_rank (cell_phase c)) (cells s))"
    using assms(1) by (auto simp: in_set_conv_nth intro!: image_eqI)
  then have "phase_rank (ph s i) \<le> progress s"
    unfolding progress_def by (intro member_le_sum_list) simp_all
  with assms show ?thesis
    by (simp add: progress_def set_phase_def map_update sum_list_update)
qed

lemma progress_step:
  assumes "step a s = Some s'"
  shows "progress s' + length (submissions [a]) = Suc (progress s)"
proof (cases a)
  case (Enqueue k)
  with assms show ?thesis by (auto simp: progress_def enqueue_cells)
next
  case (Start i)
  with assms show ?thesis
    by (auto simp: progress_set_phase progress_def [of "_\<lparr>trace := _\<rparr>"]
          progress_def [of "set_phase _ _ _", symmetric] split: if_splits)
next
  case (Finish i ok)
  with assms show ?thesis
    by (auto simp: progress_set_phase progress_def [of "_\<lparr>trace := _\<rparr>"]
          progress_def [of "set_phase _ _ _", symmetric] split: if_splits)
next
  case (Cleanup i)
  with assms have i: "i < length (cells s)" and st: "is_settled (ph s i)"
    and s': "s' = set_phase i Cleaned (cleanup i s)"
    by (auto split: if_splits)
  from st obtain ok where ok: "ph s i = Settled ok" by (cases "ph s i") simp_all
  have "progress (cleanup i s) = progress s" by (simp add: progress_def)
  with progress_set_phase [of i "cleanup i s" Cleaned] i ok Cleanup s' show ?thesis by simp
next
  case (Resolve i)
  with assms show ?thesis by (auto simp: progress_set_phase split: if_splits)
qed

lemma run_length:
  assumes "run as s = Some s'"
  shows "length as + progress s = length (submissions as) + progress s'"
  using assms
proof (induction as arbitrary: s)
  case Nil
  then show ?case by simp
next
  case (Cons a as)
  then obtain s1 where s1: "step a s = Some s1" "run as s1 = Some s'"
    by (auto split: option.splits)
  from Cons.IH [OF s1(2)] progress_step [OF s1(1)] show ?case
    by (subst submissions_Cons) simp
qed

lemma phase_rank_le: "phase_rank p \<le> 4"
  by (cases p) simp_all

lemma progress_le: "progress s \<le> 4 * length (cells s)"
proof -
  have "sum_list (map (\<lambda>c. phase_rank (cell_phase c)) cs) \<le> 4 * length cs" for cs :: "cell list"
    using phase_rank_le by (induction cs) (simp_all add: add_mono)
  then show ?thesis by (simp add: progress_def)
qed

text \<open>
  A run with \<open>N\<close> submissions has at most \<open>4 * N\<close> other steps, so it comes to a
  state where nothing is left to do.
\<close>

lemma run_length_bounded:
  assumes "run as init_state = Some s"
  shows "length as \<le> 5 * length (submissions as)"
proof -
  from run_chats [OF assms] have "map cell_chat (cells s) = submissions as"
    by (simp add: init_state_def)
  then have "length (cells s) = length (submissions as)" by (metis length_map)
  with progress_le [of s] run_length [OF assms] show ?thesis
    by (simp add: init_state_def progress_def)
qed





subsection \<open>The turn executor inside a task\<close>

lemma message_task_turns:
  "count_list (message_task env) RunCodexTurn \<le> 2"
  "\<not> payload_built env \<Longrightarrow> count_list (message_task env) RunCodexTurn = 0"
  by (simp_all add: message_task_def attempt_def)


end
